theory Spec2Isabelle
  imports Main
begin

section \<open>Lazy loading of CUDA driver entry points (c10/cuda/driver\_api)\<close>

text \<open>
  A shallow embedding of \<^verbatim>\<open>c10/cuda/driver_api.cpp\<close> and of the declaration list of
  \<^verbatim>\<open>c10/cuda/driver_api.h\<close>. The three file-scope globals, the function-local statics
  of the generated loaders and the public function pointers are the fields of one state
  record that every operation takes and returns. The CUDA runtime is a parameter. An
  operation either returns, raises or never returns; the last happens when a thread
  locks the mutex it already holds.
\<close>

subsection \<open>Pointers, exceptions, outcomes\<close>

type_synonym ptr = nat

abbreviation (input) nullptr :: ptr where
  "nullptr \<equiv> 0"

text \<open>\<^verbatim>\<open>c10::Error\<close> with its \<^verbatim>\<open>what()\<close> text; nothing else is thrown in this file.\<close>

datatype exn = C10_Error string

datatype 'a outcome = Returns 'a | Raises exn | Hangs

text \<open>
  What the code does to the world outside its own variables, and each write to the two
  shared variables, in the order it happens.
\<close>

datatype event =
    Lock
  | Unlock
  | Resolve string nat
  | TablePut string ptr
  | VersionQuery
  | VersionPut int
  | Warn string
  | Call ptr "int list"

text \<open>
  A public pointer \<^verbatim>\<open>funcName\<close> holds either the generated
  \<^verbatim>\<open>funcName##Loader<...>::lazilyLoadAndInvoke\<close> (with the macro's two arguments) or
  the address of a driver function.
\<close>

datatype fptr = LazilyLoadAndInvoke string nat | Native ptr

subsection \<open>The CUDA runtime and driver, as seen by this file\<close>

text \<open>
  \<open>Inl e\<close> is a status other than \<^verbatim>\<open>cudaSuccess\<close>, which \<^verbatim>\<open>C10_CUDA_CHECK\<close> turns
  into a \<^verbatim>\<open>c10::Error\<close> with text \<open>e\<close>; \<open>Inr x\<close> is \<^verbatim>\<open>cudaSuccess\<close> with \<open>x\<close>
  written to the out-parameter. \<open>native p args\<close> is the call of the driver function at
  address \<open>p\<close>: its \<^verbatim>\<open>CUresult\<close> and, for a function with a string out-parameter, the
  string it wrote (\<open>None\<close> for a null \<^verbatim>\<open>const char*\<close>).
\<close>

record runtime =
  CUDA_VERSION :: nat
  cudaGetDriverEntryPointByVersion :: "string \<Rightarrow> nat \<Rightarrow> string + ptr"
  cudaGetDriverEntryPoint :: "string \<Rightarrow> string + ptr"
  cudaDriverGetVersion :: "string + int"
  native :: "ptr \<Rightarrow> int list \<Rightarrow> int \<times> string option"

abbreviation (input) CUDA_SUCCESS :: int where
  "CUDA_SUCCESS \<equiv> 0"

subsection \<open>The state of the process\<close>

text \<open>
  \<open>driver_api_mutex\<close> is \<open>True\<close> while the \<^verbatim>\<open>std::mutex\<close> is held. \<open>entry_point\<close> holds,
  for each loader, the function-local static of its \<^verbatim>\<open>lazilyLoadAndInvoke\<close>:
  \<open>None\<close> until its initializer has run. \<open>wrapper\<close> holds the public pointers.
\<close>

record state =
  driver_api_mutex :: bool
  loaded_apis :: "string \<rightharpoonup> ptr"
  cached_driver_version :: int
  entry_point :: "string \<rightharpoonup> ptr"
  wrapper :: "string \<Rightarrow> fptr"
  trace :: "event list"

definition emit :: "event \<Rightarrow> state \<Rightarrow> state" where
  "emit e st = st\<lparr>trace := trace st @ [e]\<rparr>"

subsection \<open>The declaration list of the header\<close>

definition ALL_DRIVER_API_WRAPPER_CUDA :: "(string \<times> nat) list" where
  "ALL_DRIVER_API_WRAPPER_CUDA =
    [(''cuDeviceGetAttribute'', 11000),
     (''cuDeviceGetName'', 11000),
     (''cuDriverGetVersion'', 11000),
     (''cuFuncGetAttribute'', 11000),
     (''cuFuncSetAttribute'', 11000),
     (''cuGetErrorName'', 11000),
     (''cuGetErrorString'', 11000),
     (''cuInit'', 11000),
     (''cuLaunchCooperativeKernel'', 11000),
     (''cuLaunchKernel'', 11000),
     (''cuModuleGetFunction'', 11000),
     (''cuModuleLoadDataEx'', 11000),
     (''cuModuleUnload'', 11000),
     (''cuMemGetAddressRange'', 11000),
     (''cuMemAlloc'', 11000),
     (''cuMemFree'', 11000),
     (''cuMemcpyDtoH'', 11000),
     (''cuMemcpyHtoD'', 11000),
     (''cuMemcpyDtoD'', 11000),
     (''cuOccupancyMaxActiveBlocksPerMultiprocessor'', 11000),
     (''cuStreamCreate'', 11000),
     (''cuStreamDestroy'', 11000),
     (''cuStreamSynchronize'', 11000),
     (''cuCtxGetCurrent'', 11000),
     (''cuCtxSetCurrent'', 11000)]"

text \<open>Below 11000 the header stops the build with \<^verbatim>\<open>#error\<close>: no wrapper exists.\<close>

definition ALL_DRIVER_API_WRAPPER :: "nat \<Rightarrow> (string \<times> nat) list" where
  "ALL_DRIVER_API_WRAPPER cuda_version =
    (if 12000 \<le> cuda_version then
       ALL_DRIVER_API_WRAPPER_CUDA @
       [(''cuStreamWaitValue32'', 12000),
        (''cuStreamWriteValue32'', 12000),
        (''cuTensorMapEncodeTiled'', 12000),
        (''cuTensorMapReplaceAddress'', 12000)]
     else if 11000 \<le> cuda_version then
       ALL_DRIVER_API_WRAPPER_CUDA @
       [(''cuStreamWaitValue32'', 11000),
        (''cuStreamWriteValue32'', 11000)]
     else [])"

definition declared_version :: "nat \<Rightarrow> string \<Rightarrow> nat" where
  "declared_version cuda_version funcName =
    (case map_of (ALL_DRIVER_API_WRAPPER cuda_version) funcName of
       Some version \<Rightarrow> version
     | None \<Rightarrow> 0)"

text \<open>
  Static initialization: the map is empty, the version is -1, no function-local static
  is initialized, and \<^verbatim>\<open>DEFINE_DRIVER_API_WRAPPER\<close> sets each public pointer to its
  loader's \<^verbatim>\<open>lazilyLoadAndInvoke\<close>. (\<open>wrapper\<close> is total; only declared names are ever
  called.)
\<close>

definition initial_state :: "nat \<Rightarrow> state" where
  "initial_state cuda_version =
    \<lparr>driver_api_mutex = False,
     loaded_apis = Map.empty,
     cached_driver_version = - 1,
     entry_point = Map.empty,
     wrapper = (\<lambda>funcName. LazilyLoadAndInvoke funcName (declared_version cuda_version funcName)),
     trace = []\<rparr>"

subsection \<open>Control flow: sequencing, \<^verbatim>\<open>try\<close>/\<^verbatim>\<open>catch\<close>, \<^verbatim>\<open>std::lock_guard\<close>\<close>

definition bind ::
  "'a outcome \<times> state \<Rightarrow> ('a \<Rightarrow> state \<Rightarrow> 'b outcome \<times> state) \<Rightarrow> 'b outcome \<times> state" where
  "bind m k =
    (case m of
       (Returns x, st) \<Rightarrow> k x st
     | (Raises e, st) \<Rightarrow> (Raises e, st)
     | (Hangs, st) \<Rightarrow> (Hangs, st))"

text \<open>\<^verbatim>\<open>catch (...)\<close> and \<^verbatim>\<open>catch (const c10::Error&)\<close>: every exception here is a \<^verbatim>\<open>c10::Error\<close>.\<close>

definition try_catch ::
  "'a outcome \<times> state \<Rightarrow> (string \<Rightarrow> state \<Rightarrow> 'a outcome \<times> state) \<Rightarrow> 'a outcome \<times> state" where
  "try_catch m handler =
    (case m of
       (Raises (C10_Error what), st) \<Rightarrow> handler what st
     | (Returns x, st) \<Rightarrow> (Returns x, st)
     | (Hangs, st) \<Rightarrow> (Hangs, st))"

text \<open>
  \<^verbatim>\<open>std::lock_guard<std::mutex> lock(driver_api_mutex)\<close> around a body.
  \<^verbatim>\<open>std::mutex\<close> is not recursive: operations run one at a time here, so the mutex can
  only be found held by the caller itself, and then the constructor never returns.
  The destructor unlocks on return and on an exception.
\<close>

definition lock_guard :: "(state \<Rightarrow> 'a outcome \<times> state) \<Rightarrow> state \<Rightarrow> 'a outcome \<times> state" where
  "lock_guard body st =
    (if driver_api_mutex st then (Hangs, st)
     else
       (case body (emit Lock (st\<lparr>driver_api_mutex := True\<rparr>)) of
          (Hangs, st') \<Rightarrow> (Hangs, st')
        | (r, st') \<Rightarrow> (r, emit Unlock (st'\<lparr>driver_api_mutex := False\<rparr>))))"

definition C10_CUDA_CHECK :: "string + 'a \<Rightarrow> state \<Rightarrow> 'a outcome \<times> state" where
  "C10_CUDA_CHECK r st =
    (case r of
       Inl e \<Rightarrow> (Raises (C10_Error e), st)
     | Inr x \<Rightarrow> (Returns x, st))"

definition TORCH_WARN :: "string \<Rightarrow> state \<Rightarrow> state" where
  "TORCH_WARN msg st = emit (Warn msg) st"

subsection \<open>\<^verbatim>\<open>getDriverEntryPoint\<close>\<close>

abbreviation (input) quote :: string where
  "quote \<equiv> [CHR 0x27]"

definition getDriverEntryPoint ::
  "runtime \<Rightarrow> string \<Rightarrow> nat \<Rightarrow> state \<Rightarrow> ptr outcome \<times> state" where
  "getDriverEntryPoint rt symbol version st =
    try_catch
      (C10_CUDA_CHECK
         (if 12050 \<le> CUDA_VERSION rt
          then cudaGetDriverEntryPointByVersion rt symbol version
          else cudaGetDriverEntryPoint rt symbol)
         (emit (Resolve symbol version) st))
      (\<lambda>what st'.
         (Returns nullptr,
          TORCH_WARN (''Failed to load CUDA driver API '' @ quote @ symbol @ quote @ '': '' @ what) st'))"

subsection \<open>\<^verbatim>\<open>DEFINE_DRIVER_API_WRAPPER(funcName, version)\<close>\<close>

text \<open>The lambda that initializes the function-local static \<^verbatim>\<open>entry_point\<close>.\<close>

definition load_entry_point ::
  "runtime \<Rightarrow> string \<Rightarrow> nat \<Rightarrow> state \<Rightarrow> ptr outcome \<times> state" where
  "load_entry_point rt funcName version =
    lock_guard (\<lambda>st.
      case loaded_apis st funcName of
        Some p \<Rightarrow> (Returns p, st)
      | None \<Rightarrow>
          bind (getDriverEntryPoint rt funcName version st) (\<lambda>func_ptr st'.
            (Returns func_ptr,
             if func_ptr \<noteq> nullptr
             then emit (TablePut funcName func_ptr)
                    (st'\<lparr>loaded_apis := (loaded_apis st')(funcName \<mapsto> func_ptr)\<rparr>)
             else st')))"

definition not_available :: "string \<Rightarrow> string" where
  "not_available funcName =
    ''CUDA driver API '' @ quote @ funcName @ quote @ '' is not available. '' @
    ''This may indicate an incompatible CUDA driver version.''"

text \<open>
  A static local is initialized by the first call that reaches it; if the initializer
  does not return, it stays uninitialized.
\<close>

definition lazilyLoadAndInvoke ::
  "runtime \<Rightarrow> string \<Rightarrow> nat \<Rightarrow> int list \<Rightarrow> state \<Rightarrow> (int \<times> string option) outcome \<times> state" where
  "lazilyLoadAndInvoke rt funcName version args st =
    bind
      (case entry_point st funcName of
         Some p \<Rightarrow> (Returns p, st)
       | None \<Rightarrow>
           bind (load_entry_point rt funcName version st) (\<lambda>p st'.
             (Returns p, st'\<lparr>entry_point := (entry_point st')(funcName \<mapsto> p)\<rparr>)))
      (\<lambda>p st'.
         if p \<noteq> nullptr
         then (Returns (native rt p args), emit (Call p args) st')
         else (Raises (C10_Error (not_available funcName)), st'))"

text \<open>A call \<^verbatim>\<open>funcName(args...)\<close> inside \<^verbatim>\<open>at::cuda::driver\<close> goes through the public pointer.\<close>

definition call_wrapper ::
  "runtime \<Rightarrow> string \<Rightarrow> int list \<Rightarrow> state \<Rightarrow> (int \<times> string option) outcome \<times> state" where
  "call_wrapper rt funcName args st =
    (case wrapper st funcName of
       LazilyLoadAndInvoke loader version \<Rightarrow> lazilyLoadAndInvoke rt loader version args st
     | Native p \<Rightarrow> (Returns (native rt p args), emit (Call p args) st))"

subsection \<open>The utility functions of \<^verbatim>\<open>detail\<close>\<close>

definition initializeDriverAPI :: "runtime \<Rightarrow> state \<Rightarrow> unit outcome \<times> state" where
  "initializeDriverAPI rt =
    lock_guard (\<lambda>st.
      try_catch
        (bind (call_wrapper rt ''cuInit'' [0] st) (\<lambda>(result, _) st1.
           if result \<noteq> CUDA_SUCCESS then
             bind (call_wrapper rt ''cuGetErrorString'' [result] st1) (\<lambda>(_, error_string) st2.
               (Returns (),
                TORCH_WARN
                  (''Failed to initialize CUDA driver: '' @
                   (case error_string of Some s \<Rightarrow> s | None \<Rightarrow> ''Unknown error''))
                  st2))
           else (Returns (), st1)))
        (\<lambda>_ st'. (Returns (), TORCH_WARN ''Exception during CUDA driver initialization'' st')))"

definition isDriverAPIAvailable ::
  "runtime \<Rightarrow> string \<Rightarrow> nat \<Rightarrow> state \<Rightarrow> bool outcome \<times> state" where
  "isDriverAPIAvailable rt funcName minVersion =
    lock_guard (\<lambda>st.
      case loaded_apis st funcName of
        Some p \<Rightarrow> (Returns (p \<noteq> nullptr), st)
      | None \<Rightarrow>
          bind (getDriverEntryPoint rt funcName minVersion st) (\<lambda>entry_point st'.
            (Returns (entry_point \<noteq> nullptr),
             emit (TablePut funcName entry_point)
               (st'\<lparr>loaded_apis := (loaded_apis st')(funcName \<mapsto> entry_point)\<rparr>))))"

definition getDriverVersion :: "runtime \<Rightarrow> state \<Rightarrow> int outcome \<times> state" where
  "getDriverVersion rt st =
    (if 0 \<le> cached_driver_version st then (Returns (cached_driver_version st), st)
     else
       try_catch
         (bind (C10_CUDA_CHECK (cudaDriverGetVersion rt) (emit VersionQuery st)) (\<lambda>version st'.
            (Returns version,
             emit (VersionPut version) (st'\<lparr>cached_driver_version := version\<rparr>))))
         (\<lambda>what st'.
            (Returns (- 1), TORCH_WARN (''Failed to get CUDA driver version: '' @ what) st')))"

subsection \<open>Runs of the process\<close>

text \<open>
  The operations a caller has. A run is a sequence of them, each carried out to its
  end before the next starts; a run stops at an operation that never returns. Only
  declared names have a wrapper to call.
\<close>

datatype op =
    Invoke string "int list"
  | IsAvailable string nat
  | GetVersion
  | Initialize

definition forget :: "'a outcome \<times> state \<Rightarrow> unit outcome \<times> state" where
  "forget m =
    (case m of
       (Returns x, st) \<Rightarrow> (Returns (), st)
     | (Raises e, st) \<Rightarrow> (Raises e, st)
     | (Hangs, st) \<Rightarrow> (Hangs, st))"

fun step :: "runtime \<Rightarrow> op \<Rightarrow> state \<Rightarrow> unit outcome \<times> state" where
  "step rt (Invoke funcName args) st =
    (if funcName \<in> fst ` set (ALL_DRIVER_API_WRAPPER (CUDA_VERSION rt))
     then forget (call_wrapper rt funcName args st)
     else (Returns (), st))"
| "step rt (IsAvailable funcName minVersion) st = forget (isDriverAPIAvailable rt funcName minVersion st)"
| "step rt GetVersion st = forget (getDriverVersion rt st)"
| "step rt Initialize st = initializeDriverAPI rt st"

fun run :: "runtime \<Rightarrow> op list \<Rightarrow> state \<Rightarrow> state" where
  "run rt [] st = st"
| "run rt (x # xs) st =
    (case step rt x st of
       (Hangs, st') \<Rightarrow> st'
     | (_, st') \<Rightarrow> run rt xs st')"

text \<open>How often the trace asks the runtime for the entry point of a symbol.\<close>

fun is_resolve :: "string \<Rightarrow> event \<Rightarrow> bool" where
  "is_resolve s (Resolve symbol version) = (symbol = s)"
| "is_resolve s _ = False"

definition resolves :: "string \<Rightarrow> state \<Rightarrow> nat" where
  "resolves s st = length (filter (is_resolve s) (trace st))"

text \<open>
  Whether each write to \<open>loaded_apis\<close> and to \<open>cached_driver_version\<close> in a trace lies
  between a \<open>Lock\<close> and the next \<open>Unlock\<close>; \<open>held\<close> is the mutex at the start.
\<close>

fun writes_locked :: "bool \<Rightarrow> event list \<Rightarrow> bool" where
  "writes_locked held [] = True"
| "writes_locked held (Lock # es) = writes_locked True es"
| "writes_locked held (Unlock # es) = writes_locked False es"
| "writes_locked held (TablePut s p # es) = (held \<and> writes_locked held es)"
| "writes_locked held (VersionPut v # es) = (held \<and> writes_locked held es)"
| "writes_locked held (e # es) = writes_locked held es"

subsection \<open>A stub runtime for concrete runs\<close>

text \<open>
  Every symbol resolves to address 7 except \<^verbatim>\<open>cuStreamCreate\<close>, which the runtime
  rejects with an error status unless version 12000 or later is asked for; the version query
  succeeds with 12080; every driver call returns \<^verbatim>\<open>CUDA_SUCCESS\<close>.
\<close>

definition stub :: runtime where
  "stub =
    \<lparr>CUDA_VERSION = 12080,
     cudaGetDriverEntryPointByVersion =
       (\<lambda>symbol version.
          if symbol = ''cuStreamCreate'' \<and> version < 12000 then Inl ''symbol not found'' else Inr 7),
     cudaGetDriverEntryPoint =
       (\<lambda>symbol. if symbol = ''cuStreamCreate'' then Inl ''symbol not found'' else Inr 7),
     cudaDriverGetVersion = Inr 12080,
     native = (\<lambda>p args. (CUDA_SUCCESS, None))\<rparr>"

text \<open>
  The stub, except that it reports \<^verbatim>\<open>cuStreamCreate\<close> as absent with \<^verbatim>\<open>cudaSuccess\<close>
  and a null pointer.
\<close>

definition quiet_stub :: runtime where
  "quiet_stub =
    stub\<lparr>cudaGetDriverEntryPointByVersion :=
      (\<lambda>symbol version. if symbol = ''cuStreamCreate'' then Inr nullptr else Inr 7)\<rparr>"

section \<open>Several threads\<close>

text \<open>
  The same code, one access to the shared state at a time. Each thread has a program (a
  list of operations) and a control point inside the operation it is carrying out; a
  schedule names the thread that takes the next step. A thread that cannot move leaves
  the state as it is: it has finished, it waits for \<^verbatim>\<open>driver_api_mutex\<close>, or it waits
  for a function-local static that another thread is initializing. \<open>holder\<close> is the
  thread that owns the mutex, \<open>initializing\<close> the thread that runs the initializer of
  a loader's static.
\<close>

type_synonym tid = nat

text \<open>Where a call of a wrapper returns to: its caller, or \<^verbatim>\<open>initializeDriverAPI\<close> at one of its two calls.\<close>

datatype kont = Top | CuInit | CuGetErrorString

type_synonym frame = "string \<times> nat \<times> int list \<times> kont"

text \<open>
  The control points: \<open>Enter\<close> is \<^verbatim>\<open>lazilyLoadAndInvoke\<close> at its static; the \<open>Load\<close> points
  are the initializing lambda, statement by statement; \<open>Publish\<close> gives the static its value;
  \<open>Check\<close> is \<^verbatim>\<open>TORCH_CHECK\<close> and the call. The \<open>Probe\<close>, \<open>Init\<close> and \<open>Version\<close>
  points follow \<^verbatim>\<open>isDriverAPIAvailable\<close>, \<^verbatim>\<open>initializeDriverAPI\<close> and
  \<^verbatim>\<open>getDriverVersion\<close>.
\<close>

datatype control =
    Ready
  | Enter frame
  | LoadLock frame
  | LoadFind frame
  | LoadResolve frame
  | LoadStore frame ptr
  | LoadUnlock frame ptr
  | Publish frame ptr
  | Check frame ptr
  | Direct ptr "int list" kont
  | ProbeLock string nat
  | ProbeFind string nat
  | ProbeResolve string nat
  | ProbeStore string nat ptr
  | ProbeUnlock bool
  | InitLock
  | InitCuInit
  | InitErrorString int
  | InitWarn string
  | InitUnlock
  | VersionRead
  | VersionCall
  | VersionWrite int

record threads =
  shared :: state
  holder :: "tid option"
  initializing :: "string \<rightharpoonup> tid"
  pc :: "tid \<Rightarrow> control"
  prog :: "tid \<Rightarrow> op list"

definition goto :: "tid \<Rightarrow> control \<Rightarrow> threads \<Rightarrow> threads" where
  "goto t c ts = ts\<lparr>pc := (pc ts)(t := c)\<rparr>"

definition acquire :: "tid \<Rightarrow> threads \<Rightarrow> threads" where
  "acquire t ts =
    ts\<lparr>shared := emit Lock ((shared ts)\<lparr>driver_api_mutex := True\<rparr>), holder := Some t\<rparr>"

definition release :: "threads \<Rightarrow> threads" where
  "release ts =
    ts\<lparr>shared := emit Unlock ((shared ts)\<lparr>driver_api_mutex := False\<rparr>), holder := None\<rparr>"

definition dispatch :: "threads \<Rightarrow> string \<Rightarrow> int list \<Rightarrow> kont \<Rightarrow> control" where
  "dispatch ts funcName args k =
    (case wrapper (shared ts) funcName of
       LazilyLoadAndInvoke loader version \<Rightarrow> Enter (loader, version, args, k)
     | Native p \<Rightarrow> Direct p args k)"

fun after :: "kont \<Rightarrow> exn + int \<times> string option \<Rightarrow> control" where
  "after Top r = Ready"
| "after CuInit (Inr (result, _)) =
    (if result \<noteq> CUDA_SUCCESS then InitErrorString result else InitUnlock)"
| "after CuInit (Inl e) = InitWarn ''Exception during CUDA driver initialization''"
| "after CuGetErrorString (Inr (_, error_string)) =
    InitWarn (''Failed to initialize CUDA driver: '' @
      (case error_string of Some s \<Rightarrow> s | None \<Rightarrow> ''Unknown error''))"
| "after CuGetErrorString (Inl e) = InitWarn ''Exception during CUDA driver initialization''"

fun start :: "runtime \<Rightarrow> threads \<Rightarrow> op \<Rightarrow> control" where
  "start rt ts (Invoke funcName args) =
    (if funcName \<in> fst ` set (ALL_DRIVER_API_WRAPPER (CUDA_VERSION rt))
     then dispatch ts funcName args Top else Ready)"
| "start rt ts (IsAvailable funcName minVersion) = ProbeLock funcName minVersion"
| "start rt ts GetVersion = VersionRead"
| "start rt ts Initialize = InitLock"

text \<open>
  One step of thread \<open>t\<close> at control point \<open>c\<close>; \<open>None\<close> when it cannot move.
  (\<^verbatim>\<open>getDriverEntryPoint\<close> always returns, so the other outcomes of the resolving
  steps never occur.)
\<close>

fun thread_step :: "runtime \<Rightarrow> tid \<Rightarrow> control \<Rightarrow> threads \<Rightarrow> threads option" where
  "thread_step rt t Ready ts =
    (case prog ts t of
       [] \<Rightarrow> None
     | x # xs \<Rightarrow> Some (goto t (start rt ts x) (ts\<lparr>prog := (prog ts)(t := xs)\<rparr>)))"
| "thread_step rt t (Enter (f, v, args, k)) ts =
    (case entry_point (shared ts) f of
       Some p \<Rightarrow> Some (goto t (Check (f, v, args, k) p) ts)
     | None \<Rightarrow>
        (case initializing ts f of
           Some t' \<Rightarrow> None
         | None \<Rightarrow>
            Some (goto t (LoadLock (f, v, args, k)) (ts\<lparr>initializing := (initializing ts)(f \<mapsto> t)\<rparr>))))"
| "thread_step rt t (LoadLock fr) ts =
    (if driver_api_mutex (shared ts) then None
     else Some (goto t (LoadFind fr) (acquire t ts)))"
| "thread_step rt t (LoadFind (f, v, args, k)) ts =
    (case loaded_apis (shared ts) f of
       Some p \<Rightarrow> Some (goto t (LoadUnlock (f, v, args, k) p) ts)
     | None \<Rightarrow> Some (goto t (LoadResolve (f, v, args, k)) ts))"
| "thread_step rt t (LoadResolve (f, v, args, k)) ts =
    (case getDriverEntryPoint rt f v (shared ts) of
       (Returns func_ptr, s) \<Rightarrow> Some (goto t (LoadStore (f, v, args, k) func_ptr) (ts\<lparr>shared := s\<rparr>))
     | _ \<Rightarrow> None)"
| "thread_step rt t (LoadStore (f, v, args, k) func_ptr) ts =
    Some (goto t (LoadUnlock (f, v, args, k) func_ptr)
      (if func_ptr \<noteq> nullptr
       then ts\<lparr>shared := emit (TablePut f func_ptr)
                 ((shared ts)\<lparr>loaded_apis := (loaded_apis (shared ts))(f \<mapsto> func_ptr)\<rparr>)\<rparr>
       else ts))"
| "thread_step rt t (LoadUnlock fr p) ts = Some (goto t (Publish fr p) (release ts))"
| "thread_step rt t (Publish (f, v, args, k) p) ts =
    Some (goto t (Check (f, v, args, k) p)
      (ts\<lparr>shared := (shared ts)\<lparr>entry_point := (entry_point (shared ts))(f \<mapsto> p)\<rparr>,
         initializing := (initializing ts)(f := None)\<rparr>))"
| "thread_step rt t (Check (f, v, args, k) p) ts =
    (if p \<noteq> nullptr
     then Some (goto t (after k (Inr (native rt p args))) (ts\<lparr>shared := emit (Call p args) (shared ts)\<rparr>))
     else Some (goto t (after k (Inl (C10_Error (not_available f)))) ts))"
| "thread_step rt t (Direct p args k) ts =
    Some (goto t (after k (Inr (native rt p args))) (ts\<lparr>shared := emit (Call p args) (shared ts)\<rparr>))"
| "thread_step rt t (ProbeLock funcName minVersion) ts =
    (if driver_api_mutex (shared ts) then None
     else Some (goto t (ProbeFind funcName minVersion) (acquire t ts)))"
| "thread_step rt t (ProbeFind funcName minVersion) ts =
    (case loaded_apis (shared ts) funcName of
       Some p \<Rightarrow> Some (goto t (ProbeUnlock (p \<noteq> nullptr)) ts)
     | None \<Rightarrow> Some (goto t (ProbeResolve funcName minVersion) ts))"
| "thread_step rt t (ProbeResolve funcName minVersion) ts =
    (case getDriverEntryPoint rt funcName minVersion (shared ts) of
       (Returns p, s) \<Rightarrow> Some (goto t (ProbeStore funcName minVersion p) (ts\<lparr>shared := s\<rparr>))
     | _ \<Rightarrow> None)"
| "thread_step rt t (ProbeStore funcName minVersion p) ts =
    Some (goto t (ProbeUnlock (p \<noteq> nullptr))
      (ts\<lparr>shared := emit (TablePut funcName p)
           ((shared ts)\<lparr>loaded_apis := (loaded_apis (shared ts))(funcName \<mapsto> p)\<rparr>)\<rparr>))"
| "thread_step rt t (ProbeUnlock b) ts = Some (goto t Ready (release ts))"
| "thread_step rt t InitLock ts =
    (if driver_api_mutex (shared ts) then None
     else Some (goto t InitCuInit (acquire t ts)))"
| "thread_step rt t InitCuInit ts = Some (goto t (dispatch ts ''cuInit'' [0] CuInit) ts)"
| "thread_step rt t (InitErrorString result) ts =
    Some (goto t (dispatch ts ''cuGetErrorString'' [result] CuGetErrorString) ts)"
| "thread_step rt t (InitWarn msg) ts =
    Some (goto t InitUnlock (ts\<lparr>shared := TORCH_WARN msg (shared ts)\<rparr>))"
| "thread_step rt t InitUnlock ts = Some (goto t Ready (release ts))"
| "thread_step rt t VersionRead ts =
    (if 0 \<le> cached_driver_version (shared ts) then Some (goto t Ready ts)
     else Some (goto t VersionCall ts))"
| "thread_step rt t VersionCall ts =
    (case cudaDriverGetVersion rt of
       Inr version \<Rightarrow>
         Some (goto t (VersionWrite version) (ts\<lparr>shared := emit VersionQuery (shared ts)\<rparr>))
     | Inl what \<Rightarrow>
         Some (goto t Ready
           (ts\<lparr>shared := TORCH_WARN (''Failed to get CUDA driver version: '' @ what)
                (emit VersionQuery (shared ts))\<rparr>)))"
| "thread_step rt t (VersionWrite version) ts =
    Some (goto t Ready
      (ts\<lparr>shared := emit (VersionPut version) ((shared ts)\<lparr>cached_driver_version := version\<rparr>)\<rparr>))"

definition tstep :: "runtime \<Rightarrow> tid \<Rightarrow> threads \<Rightarrow> threads" where
  "tstep rt t ts = (case thread_step rt t (pc ts t) ts of None \<Rightarrow> ts | Some ts' \<Rightarrow> ts')"

fun exec :: "runtime \<Rightarrow> tid list \<Rightarrow> threads \<Rightarrow> threads" where
  "exec rt [] ts = ts"
| "exec rt (t # sched) ts = exec rt sched (tstep rt t ts)"

definition initial_threads :: "nat \<Rightarrow> (tid \<Rightarrow> op list) \<Rightarrow> threads" where
  "initial_threads cuda_version programs =
    \<lparr>shared = initial_state cuda_version, holder = None, initializing = Map.empty,
     pc = (\<lambda>t. Ready), prog = programs\<rparr>"

text \<open>
  The invariant of the threaded runs, for a symbol \<open>s\<close>: which control points own the
  mutex, which initialize the static of \<open>s\<close>, which have seen \<open>s\<close> absent from the
  map under the mutex; the pointer the loader of \<open>s\<close> has adopted or is about to
  publish; and whether the map has, or a probe is about to store, an entry for \<open>s\<close>.
\<close>

fun holds_lock :: "control \<Rightarrow> bool" where
  "holds_lock (Enter (f, v, args, k)) = (k \<noteq> Top)"
| "holds_lock (LoadLock (f, v, args, k)) = (k \<noteq> Top)"
| "holds_lock (LoadFind fr) = True"
| "holds_lock (LoadResolve fr) = True"
| "holds_lock (LoadStore fr p) = True"
| "holds_lock (LoadUnlock fr p) = True"
| "holds_lock (Publish (f, v, args, k) p) = (k \<noteq> Top)"
| "holds_lock (Check (f, v, args, k) p) = (k \<noteq> Top)"
| "holds_lock (Direct p args k) = (k \<noteq> Top)"
| "holds_lock (ProbeFind f v) = True"
| "holds_lock (ProbeResolve f v) = True"
| "holds_lock (ProbeStore f v p) = True"
| "holds_lock (ProbeUnlock b) = True"
| "holds_lock InitCuInit = True"
| "holds_lock (InitErrorString r) = True"
| "holds_lock (InitWarn m) = True"
| "holds_lock InitUnlock = True"
| "holds_lock c = False"

fun loading :: "string \<Rightarrow> control \<Rightarrow> bool" where
  "loading s (LoadLock (f, v, args, k)) = (f = s)"
| "loading s (LoadFind (f, v, args, k)) = (f = s)"
| "loading s (LoadResolve (f, v, args, k)) = (f = s)"
| "loading s (LoadStore (f, v, args, k) p) = (f = s)"
| "loading s (LoadUnlock (f, v, args, k) p) = (f = s)"
| "loading s (Publish (f, v, args, k) p) = (f = s)"
| "loading s c = False"

fun top_only :: "control \<Rightarrow> bool" where
  "top_only (LoadFind (f, v, args, k)) = (k = Top)"
| "top_only (LoadResolve (f, v, args, k)) = (k = Top)"
| "top_only (LoadStore (f, v, args, k) p) = (k = Top)"
| "top_only (LoadUnlock (f, v, args, k) p) = (k = Top)"
| "top_only (Publish (f, v, args, k) p) = (k = Top)"
| "top_only c = True"

fun awaits_absent :: "string \<Rightarrow> control \<Rightarrow> bool" where
  "awaits_absent s (LoadResolve (f, v, args, k)) = (f = s)"
| "awaits_absent s (LoadStore (f, v, args, k) p) = (f = s)"
| "awaits_absent s (ProbeResolve f v) = (f = s)"
| "awaits_absent s (ProbeStore f v p) = (f = s)"
| "awaits_absent s c = False"

fun adopted :: "control \<Rightarrow> ptr option" where
  "adopted (LoadStore fr p) = Some p"
| "adopted (LoadUnlock fr p) = Some p"
| "adopted (Publish fr p) = Some p"
| "adopted c = None"

fun storing :: "string \<Rightarrow> control \<Rightarrow> bool" where
  "storing s (ProbeStore f v p) = (f = s)"
| "storing s c = False"

fun load_storing :: "control \<Rightarrow> bool" where
  "load_storing (LoadStore fr p) = True"
| "load_storing c = False"

definition slot_pointer :: "string \<Rightarrow> threads \<Rightarrow> ptr option" where
  "slot_pointer s ts =
    (case entry_point (shared ts) s of
       Some q \<Rightarrow> Some q
     | None \<Rightarrow> (case initializing ts s of Some t \<Rightarrow> adopted (pc ts t) | None \<Rightarrow> None))"

definition in_table :: "string \<Rightarrow> threads \<Rightarrow> bool" where
  "in_table s ts \<longleftrightarrow>
    loaded_apis (shared ts) s \<noteq> None \<or>
    (case holder ts of Some t \<Rightarrow> storing s (pc ts t) | None \<Rightarrow> False)"

definition thread_bound :: "string \<Rightarrow> threads \<Rightarrow> nat" where
  "thread_bound s ts =
    (if \<not> in_table s ts then (if slot_pointer s ts = None then 0 else 1)
     else if slot_pointer s ts = Some nullptr then 2 else 1)"

definition thread_inv :: "string \<Rightarrow> threads \<Rightarrow> bool" where
  "thread_inv s ts \<longleftrightarrow>
    (\<forall>t. holds_lock (pc ts t) \<longleftrightarrow> holder ts = Some t) \<and>
    (driver_api_mutex (shared ts) \<longleftrightarrow> holder ts \<noteq> None) \<and>
    (\<forall>t. loading s (pc ts t) \<longleftrightarrow> initializing ts s = Some t) \<and>
    (\<forall>t. top_only (pc ts t)) \<and>
    (entry_point (shared ts) s \<noteq> None \<longrightarrow> initializing ts s = None) \<and>
    (\<forall>t. awaits_absent s (pc ts t) \<longrightarrow> loaded_apis (shared ts) s = None) \<and>
    resolves s (shared ts) \<le> thread_bound s ts \<and>
    (\<forall>q. slot_pointer s ts = Some q \<and> q \<noteq> nullptr \<longrightarrow>
       loaded_apis (shared ts) s = Some q \<or>
       (case initializing ts s of Some t \<Rightarrow> load_storing (pc ts t) | None \<Rightarrow> False))"

definition two_threads :: "op list \<Rightarrow> op list \<Rightarrow> tid \<Rightarrow> op list" where
  "two_threads a b t = (if t = 0 then a else if t = 1 then b else [])"

section \<open>What each operation does\<close>

lemmas model_defs =
  forget_def call_wrapper_def lazilyLoadAndInvoke_def load_entry_point_def
  isDriverAPIAvailable_def getDriverVersion_def initializeDriverAPI_def getDriverEntryPoint_def
  bind_def try_catch_def lock_guard_def C10_CUDA_CHECK_def TORCH_WARN_def emit_def
  initial_state_def declared_version_def ALL_DRIVER_API_WRAPPER_def ALL_DRIVER_API_WRAPPER_CUDA_def
  stub_def quiet_stub_def resolves_def

text \<open>
  \<^verbatim>\<open>getDriverEntryPoint\<close> always returns; its pointer does not depend on the state, and
  it adds one \<open>Resolve\<close> and at most a warning to the trace.
\<close>

lemma getDriverEntryPoint_result:
  obtains p ws where
    "\<forall>st. getDriverEntryPoint rt symbol version st =
       (Returns p, st\<lparr>trace := trace st @ Resolve symbol version # map Warn ws\<rparr>)"
proof (cases "if 12050 \<le> CUDA_VERSION rt then cudaGetDriverEntryPointByVersion rt symbol version
    else cudaGetDriverEntryPoint rt symbol")
  case (Inl e)
  then show ?thesis
    by (intro that[of 0 "[''Failed to load CUDA driver API '' @ quote @ symbol @ quote @ '': '' @ e]"])
       (simp add: getDriverEntryPoint_def try_catch_def C10_CUDA_CHECK_def TORCH_WARN_def emit_def)
next
  case (Inr p)
  then show ?thesis
    by (intro that[of p "[]"])
       (simp add: getDriverEntryPoint_def try_catch_def C10_CUDA_CHECK_def emit_def)
qed

lemma load_entry_point_eq:
  assumes "\<forall>st. getDriverEntryPoint rt f v st =
       (Returns p, st\<lparr>trace := trace st @ Resolve f v # map Warn ws\<rparr>)"
  shows "load_entry_point rt f v st =
    (if driver_api_mutex st then (Hangs, st)
     else case loaded_apis st f of
       Some q \<Rightarrow> (Returns q, st\<lparr>driver_api_mutex := False, trace := trace st @ [Lock, Unlock]\<rparr>)
     | None \<Rightarrow>
        (Returns p,
         st\<lparr>driver_api_mutex := False,
            loaded_apis := (if p \<noteq> nullptr then (loaded_apis st)(f \<mapsto> p) else loaded_apis st),
            trace := trace st @ [Lock, Resolve f v] @ map Warn ws @
                     (if p \<noteq> nullptr then [TablePut f p] else []) @ [Unlock]\<rparr>))"
  by (simp add: load_entry_point_def lock_guard_def bind_def emit_def assms split: option.splits)

lemma isDriverAPIAvailable_eq:
  assumes "\<forall>st. getDriverEntryPoint rt f v st =
       (Returns p, st\<lparr>trace := trace st @ Resolve f v # map Warn ws\<rparr>)"
  shows "isDriverAPIAvailable rt f v st =
    (if driver_api_mutex st then (Hangs, st)
     else case loaded_apis st f of
       Some q \<Rightarrow>
         (Returns (q \<noteq> nullptr), st\<lparr>driver_api_mutex := False, trace := trace st @ [Lock, Unlock]\<rparr>)
     | None \<Rightarrow>
        (Returns (p \<noteq> nullptr),
         st\<lparr>driver_api_mutex := False,
            loaded_apis := (loaded_apis st)(f \<mapsto> p),
            trace := trace st @ [Lock, Resolve f v] @ map Warn ws @ [TablePut f p, Unlock]\<rparr>))"
  by (simp add: isDriverAPIAvailable_def lock_guard_def bind_def emit_def assms split: option.splits)

lemma lazilyLoadAndInvoke_eq:
  assumes "\<forall>st. getDriverEntryPoint rt f v st =
       (Returns p, st\<lparr>trace := trace st @ Resolve f v # map Warn ws\<rparr>)"
  shows "lazilyLoadAndInvoke rt f v args st =
    (case entry_point st f of
       Some q \<Rightarrow>
         (if q \<noteq> nullptr then (Returns (native rt q args), st\<lparr>trace := trace st @ [Call q args]\<rparr>)
          else (Raises (C10_Error (not_available f)), st))
     | None \<Rightarrow>
        (if driver_api_mutex st then (Hangs, st)
         else case loaded_apis st f of
           Some q \<Rightarrow>
             (if q \<noteq> nullptr
              then (Returns (native rt q args),
                    st\<lparr>driver_api_mutex := False, entry_point := (entry_point st)(f \<mapsto> q),
                       trace := trace st @ [Lock, Unlock, Call q args]\<rparr>)
              else (Raises (C10_Error (not_available f)),
                    st\<lparr>driver_api_mutex := False, entry_point := (entry_point st)(f \<mapsto> q),
                       trace := trace st @ [Lock, Unlock]\<rparr>))
         | None \<Rightarrow>
             (if p \<noteq> nullptr
              then (Returns (native rt p args),
                    st\<lparr>driver_api_mutex := False, loaded_apis := (loaded_apis st)(f \<mapsto> p),
                       entry_point := (entry_point st)(f \<mapsto> p),
                       trace := trace st @ [Lock, Resolve f v] @ map Warn ws @
                                [TablePut f p, Unlock, Call p args]\<rparr>)
              else (Raises (C10_Error (not_available f)),
                    st\<lparr>driver_api_mutex := False, entry_point := (entry_point st)(f \<mapsto> p),
                       trace := trace st @ [Lock, Resolve f v] @ map Warn ws @ [Unlock]\<rparr>))))"
  by (simp add: lazilyLoadAndInvoke_def load_entry_point_eq[OF assms] bind_def emit_def
        split: option.splits)

section \<open>Properties kept by every run\<close>

text \<open>
  A property of the state is kept by a run once both generated operations keep it and
  it does not look at the mutex, at the memoized version or at trace events other than
  \<open>Resolve\<close>. The rules follow the control operators one by one.
\<close>

lemma bind_preserves:
  assumes "P (snd m)" and "\<And>x st. P st \<Longrightarrow> P (snd (k x st))"
  shows "P (snd (bind m k))"
proof (cases m)
  case (Pair r st)
  with assms show ?thesis by (cases r) (simp_all add: bind_def)
qed

lemma try_catch_preserves:
  assumes "P (snd m)" and "\<And>what st. P st \<Longrightarrow> P (snd (handler what st))"
  shows "P (snd (try_catch m handler))"
proof (cases m)
  case (Pair r st)
  with assms show ?thesis by (cases r) (simp_all add: try_catch_def split: exn.splits)
qed

lemma lock_guard_preserves:
  assumes body: "\<And>st. P st \<Longrightarrow> P (snd (body st))"
    and quiet: "\<And>st e. (\<forall>s v. e \<noteq> Resolve s v) \<Longrightarrow> P (emit e st) = P st"
    and mutex: "\<And>st b. P (st\<lparr>driver_api_mutex := b\<rparr>) = P st"
    and "P st"
  shows "P (snd (lock_guard body st))"
proof (cases "driver_api_mutex st")
  case True
  with \<open>P st\<close> show ?thesis by (simp add: lock_guard_def)
next
  case False
  have "P (emit Lock (st\<lparr>driver_api_mutex := True\<rparr>))"
    using \<open>P st\<close> by (simp add: quiet mutex)
  then have "P (snd (body (emit Lock (st\<lparr>driver_api_mutex := True\<rparr>))))"
    by (rule body)
  with False show ?thesis
    by (cases "body (emit Lock (st\<lparr>driver_api_mutex := True\<rparr>))")
       (simp add: lock_guard_def quiet mutex split: outcome.splits)
qed

lemma call_wrapper_preserves:
  assumes "\<And>f v args st. P st \<Longrightarrow> P (snd (lazilyLoadAndInvoke rt f v args st))"
    and "\<And>st e. (\<forall>s v. e \<noteq> Resolve s v) \<Longrightarrow> P (emit e st) = P st"
    and "P st"
  shows "P (snd (call_wrapper rt f args st))"
  using assms by (simp add: call_wrapper_def split: fptr.splits)

lemma initializeDriverAPI_preserves:
  assumes slot: "\<And>f v args st. P st \<Longrightarrow> P (snd (lazilyLoadAndInvoke rt f v args st))"
    and quiet: "\<And>st e. (\<forall>s v. e \<noteq> Resolve s v) \<Longrightarrow> P (emit e st) = P st"
    and mutex: "\<And>st b. P (st\<lparr>driver_api_mutex := b\<rparr>) = P st"
    and "P st"
  shows "P (snd (initializeDriverAPI rt st))"
proof -
  note call = call_wrapper_preserves[where P = P, OF slot quiet]
  have warn: "P (TORCH_WARN msg st1)" if "P st1" for msg st1
    using that by (simp add: TORCH_WARN_def quiet)
  define report where "report = (\<lambda>(x :: int \<times> string option) st3.
      (Returns (),
       TORCH_WARN
         (''Failed to initialize CUDA driver: '' @
          (case snd x of Some s \<Rightarrow> s | None \<Rightarrow> ''Unknown error''))
         st3))"
  define after_init where "after_init = (\<lambda>(x :: int \<times> string option) st2.
      if fst x \<noteq> CUDA_SUCCESS
      then bind (call_wrapper rt ''cuGetErrorString'' [fst x] st2) report
      else (Returns (), st2))"
  define handler where "handler = (\<lambda>(w :: string) st'.
      (Returns (), TORCH_WARN ''Exception during CUDA driver initialization'' st'))"
  have report: "P (snd (report y st3))" if "P st3" for y st3
    using that by (simp add: report_def warn)
  have after_init: "P (snd (after_init x st2))" if "P st2" for x st2
  proof (cases "fst x \<noteq> CUDA_SUCCESS")
    case True
    have "P (snd (bind (call_wrapper rt ''cuGetErrorString'' [fst x] st2) report))"
      by (rule bind_preserves[where P = P]) (use that in \<open>simp_all add: call report\<close>)
    with True show ?thesis by (simp add: after_init_def)
  next
    case False
    with that show ?thesis by (simp add: after_init_def)
  qed
  have body: "P (snd (try_catch (bind (call_wrapper rt ''cuInit'' [0] st1) after_init) handler))"
    if "P st1" for st1
  proof (rule try_catch_preserves[where P = P])
    show "P (snd (bind (call_wrapper rt ''cuInit'' [0] st1) after_init))"
      by (rule bind_preserves[where P = P]) (use that in \<open>simp_all add: call after_init\<close>)
  next
    fix what st2
    assume "P st2"
    then show "P (snd (handler what st2))"
      by (simp add: handler_def warn)
  qed
  have eq: "initializeDriverAPI rt =
      lock_guard (\<lambda>st. try_catch (bind (call_wrapper rt ''cuInit'' [0] st) after_init) handler)"
    unfolding initializeDriverAPI_def after_init_def report_def handler_def case_prod_unfold ..
  show ?thesis
    unfolding eq
    by (rule lock_guard_preserves[where P = P, OF body quiet mutex \<open>P st\<close>])
qed

lemma getDriverVersion_preserves:
  assumes quiet: "\<And>st e. (\<forall>s v. e \<noteq> Resolve s v) \<Longrightarrow> P (emit e st) = P st"
    and version: "\<And>st v. P (st\<lparr>cached_driver_version := v\<rparr>) = P st"
    and "P st"
  shows "P (snd (getDriverVersion rt st))"
  using \<open>P st\<close>
  by (simp add: getDriverVersion_def try_catch_def bind_def C10_CUDA_CHECK_def TORCH_WARN_def
        quiet version split: sum.splits)

lemma snd_forget: "snd (forget m) = snd m"
  by (cases m; cases "fst m") (simp_all add: forget_def)

lemma run_preserves:
  assumes slot: "\<And>f v args st. P st \<Longrightarrow> P (snd (lazilyLoadAndInvoke rt f v args st))"
    and probe: "\<And>f v st. P st \<Longrightarrow> P (snd (isDriverAPIAvailable rt f v st))"
    and quiet: "\<And>st e. (\<forall>s v. e \<noteq> Resolve s v) \<Longrightarrow> P (emit e st) = P st"
    and mutex: "\<And>st b. P (st\<lparr>driver_api_mutex := b\<rparr>) = P st"
    and version: "\<And>st v. P (st\<lparr>cached_driver_version := v\<rparr>) = P st"
  shows "P st \<Longrightarrow> P (run rt ops st)"
proof (induction ops arbitrary: st)
  case Nil
  then show ?case by simp
next
  case (Cons x xs)
  have "P (snd (step rt x st))"
  proof (cases x)
    case (Invoke f args)
    with Cons.prems show ?thesis
      by (simp add: snd_forget call_wrapper_preserves[where P = P, OF slot quiet])
  next
    case (IsAvailable f v)
    with Cons.prems show ?thesis by (simp add: snd_forget probe)
  next
    case GetVersion
    with Cons.prems show ?thesis
      by (simp add: snd_forget getDriverVersion_preserves[where P = P, OF quiet version])
  next
    case Initialize
    with Cons.prems show ?thesis
      by (simp add: initializeDriverAPI_preserves[where P = P, OF slot quiet mutex])
  qed
  then show ?case
    by (cases "step rt x st") (auto simp: Cons.IH split: outcome.splits)
qed

lemma run_append:
  "run rt (xs @ ys) st = run rt xs st \<or> run rt (xs @ ys) st = run rt ys (run rt xs st)"
  by (induction xs arbitrary: st) (auto split: prod.splits outcome.splits)

lemma filter_is_resolve_Warn [simp]: "filter (is_resolve s) (map Warn ws) = []"
  by (induction ws) simp_all

lemma lazilyLoadAndInvoke_table:
  assumes "loaded_apis st n = Some p"
  shows "loaded_apis (snd (lazilyLoadAndInvoke rt f v args st)) n = Some p"
proof -
  obtain r ws where h: "\<forall>st. getDriverEntryPoint rt f v st =
      (Returns r, st\<lparr>trace := trace st @ Resolve f v # map Warn ws\<rparr>)"
    by (rule getDriverEntryPoint_result)
  show ?thesis
    using assms by (auto simp: lazilyLoadAndInvoke_eq[OF h] split: option.splits)
qed

lemma isDriverAPIAvailable_table:
  assumes "loaded_apis st n = Some p"
  shows "loaded_apis (snd (isDriverAPIAvailable rt f v st)) n = Some p"
proof -
  obtain r ws where h: "\<forall>st. getDriverEntryPoint rt f v st =
      (Returns r, st\<lparr>trace := trace st @ Resolve f v # map Warn ws\<rparr>)"
    by (rule getDriverEntryPoint_result)
  show ?thesis
    using assms by (auto simp: isDriverAPIAvailable_eq[OF h] split: option.splits)
qed

lemma run_table:
  "loaded_apis st n = Some p \<Longrightarrow> loaded_apis (run rt ops st) n = Some p"
  by (rule run_preserves[where P = "\<lambda>st. loaded_apis st n = Some p"])
     (simp_all add: lazilyLoadAndInvoke_table isDriverAPIAvailable_table emit_def)

lemma lazilyLoadAndInvoke_entry:
  assumes "entry_point st n = Some p"
  shows "entry_point (snd (lazilyLoadAndInvoke rt f v args st)) n = Some p"
proof -
  obtain r ws where h: "\<forall>st. getDriverEntryPoint rt f v st =
      (Returns r, st\<lparr>trace := trace st @ Resolve f v # map Warn ws\<rparr>)"
    by (rule getDriverEntryPoint_result)
  show ?thesis
    using assms by (auto simp: lazilyLoadAndInvoke_eq[OF h] split: option.splits)
qed

lemma isDriverAPIAvailable_entry:
  shows "entry_point (snd (isDriverAPIAvailable rt f v st)) = entry_point st"
proof -
  obtain r ws where h: "\<forall>st. getDriverEntryPoint rt f v st =
      (Returns r, st\<lparr>trace := trace st @ Resolve f v # map Warn ws\<rparr>)"
    by (rule getDriverEntryPoint_result)
  show ?thesis
    by (auto simp: isDriverAPIAvailable_eq[OF h] split: option.splits)
qed

lemma run_entry:
  "entry_point st n = Some p \<Longrightarrow> entry_point (run rt ops st) n = Some p"
  by (rule run_preserves[where P = "\<lambda>st. entry_point st n = Some p"])
     (simp_all add: lazilyLoadAndInvoke_entry isDriverAPIAvailable_entry emit_def)

lemma lazilyLoadAndInvoke_wrapper:
  shows "wrapper (snd (lazilyLoadAndInvoke rt f v args st)) = wrapper st"
proof -
  obtain r ws where h: "\<forall>st. getDriverEntryPoint rt f v st =
      (Returns r, st\<lparr>trace := trace st @ Resolve f v # map Warn ws\<rparr>)"
    by (rule getDriverEntryPoint_result)
  show ?thesis
    by (auto simp: lazilyLoadAndInvoke_eq[OF h] split: option.splits)
qed

lemma isDriverAPIAvailable_wrapper:
  shows "wrapper (snd (isDriverAPIAvailable rt f v st)) = wrapper st"
proof -
  obtain r ws where h: "\<forall>st. getDriverEntryPoint rt f v st =
      (Returns r, st\<lparr>trace := trace st @ Resolve f v # map Warn ws\<rparr>)"
    by (rule getDriverEntryPoint_result)
  show ?thesis
    by (auto simp: isDriverAPIAvailable_eq[OF h] split: option.splits)
qed

lemma run_wrapper: "wrapper (run rt ops st) = wrapper st"
proof -
  have "wrapper (run rt ops st) = w" if "wrapper st = w" for w
    using that
    by (rule run_preserves[where P = "\<lambda>st. wrapper st = w", rotated -1])
       (simp_all add: lazilyLoadAndInvoke_wrapper isDriverAPIAvailable_wrapper emit_def)
  then show ?thesis by simp
qed

section \<open>The invariant of the threaded runs\<close>

lemmas thread_defs = tstep_def goto_def acquire_def release_def dispatch_def initial_threads_def
  two_threads_def

lemma initial_thread_inv: "thread_inv s (initial_threads cv programs)"
  by (simp add: thread_inv_def initial_threads_def thread_bound_def in_table_def slot_pointer_def
      initial_state_def resolves_def)

lemma after_holds_lock [simp]: "holds_lock (after k r) = (k \<noteq> Top)"
  by (cases "(k, r)" rule: after.cases) simp_all

lemma after_plain [simp]:
  "\<not> loading s (after k r)" "top_only (after k r)" "\<not> awaits_absent s (after k r)"
  "adopted (after k r) = None" "\<not> storing s (after k r)" "\<not> load_storing (after k r)"
  by (cases "(k, r)" rule: after.cases; simp)+

lemma dispatch_holds_lock [simp]: "holds_lock (dispatch ts f args k) = (k \<noteq> Top)"
  by (simp add: dispatch_def split: fptr.splits)

lemma dispatch_plain [simp]:
  "\<not> loading s (dispatch ts f args k)" "top_only (dispatch ts f args k)"
  "\<not> awaits_absent s (dispatch ts f args k)" "adopted (dispatch ts f args k) = None"
  "\<not> storing s (dispatch ts f args k)" "\<not> load_storing (dispatch ts f args k)"
  by (simp_all add: dispatch_def split: fptr.splits)

lemma start_plain [simp]:
  "\<not> holds_lock (start rt ts x)"
  "\<not> loading s (start rt ts x)" "top_only (start rt ts x)"
  "\<not> awaits_absent s (start rt ts x)" "adopted (start rt ts x) = None"
  "\<not> storing s (start rt ts x)" "\<not> load_storing (start rt ts x)"
  by (cases x; simp)+

lemma thread_invD:
  assumes "thread_inv s ts"
  shows "holds_lock (pc ts u) \<longleftrightarrow> holder ts = Some u"
    and "driver_api_mutex (shared ts) \<longleftrightarrow> holder ts \<noteq> None"
    and "loading s (pc ts u) \<longleftrightarrow> initializing ts s = Some u"
    and "top_only (pc ts u)"
    and "entry_point (shared ts) s \<noteq> None \<Longrightarrow> initializing ts s = None"
    and "awaits_absent s (pc ts u) \<Longrightarrow> loaded_apis (shared ts) s = None"
    and "resolves s (shared ts) \<le> thread_bound s ts"
    and "slot_pointer s ts = Some q \<Longrightarrow> q \<noteq> nullptr \<Longrightarrow>
       loaded_apis (shared ts) s = Some q \<or>
       (case initializing ts s of Some t \<Rightarrow> load_storing (pc ts t) | None \<Rightarrow> False)"
  using assms unfolding thread_inv_def by blast+

lemma thread_invI:
  assumes "\<And>u. holds_lock (pc ts u) \<longleftrightarrow> holder ts = Some u"
    and "driver_api_mutex (shared ts) \<longleftrightarrow> holder ts \<noteq> None"
    and "\<And>u. loading s (pc ts u) \<longleftrightarrow> initializing ts s = Some u"
    and "\<And>u. top_only (pc ts u)"
    and "entry_point (shared ts) s \<noteq> None \<Longrightarrow> initializing ts s = None"
    and "\<And>u. awaits_absent s (pc ts u) \<Longrightarrow> loaded_apis (shared ts) s = None"
    and "resolves s (shared ts) \<le> thread_bound s ts"
    and "\<And>q. slot_pointer s ts = Some q \<Longrightarrow> q \<noteq> nullptr \<Longrightarrow>
       loaded_apis (shared ts) s = Some q \<or>
       (case initializing ts s of Some t \<Rightarrow> load_storing (pc ts t) | None \<Rightarrow> False)"
  shows "thread_inv s ts"
  using assms unfolding thread_inv_def by blast

lemma awaits_absent_holds_lock: "awaits_absent s c \<Longrightarrow> holds_lock c"
  by (cases "(s, c)" rule: awaits_absent.cases) simp_all

lemma load_storing_holds_lock: "load_storing c \<Longrightarrow> holds_lock c"
  by (cases c rule: load_storing.cases) simp_all

lemma storing_holds_lock: "storing s c \<Longrightarrow> holds_lock c"
  by (cases "(s, c)" rule: storing.cases) simp_all

lemma quiet_step:
  assumes inv: "thread_inv s ts" and at: "pc ts t = c"
    and table: "loaded_apis sh s = loaded_apis (shared ts) s"
    and entry: "entry_point sh s = entry_point (shared ts) s"
    and ini: "ini s = initializing ts s"
    and mutex: "driver_api_mutex sh \<longleftrightarrow> h \<noteq> None"
    and count: "resolves s sh = resolves s (shared ts)"
    and lock: "\<And>u. holds_lock (((pc ts)(t := c')) u) \<longleftrightarrow> h = Some u"
    and pend: "(case h of Some u \<Rightarrow> storing s (((pc ts)(t := c')) u) | None \<Rightarrow> False) =
        (case holder ts of Some u \<Rightarrow> storing s (pc ts u) | None \<Rightarrow> False)"
    and load: "loading s c' = loading s c"
    and top: "top_only c'"
    and absent: "awaits_absent s c' \<Longrightarrow> loaded_apis (shared ts) s = None"
    and lstore: "loading s c \<Longrightarrow> load_storing c' = load_storing c"
    and adopt: "loading s c \<Longrightarrow> adopted c' = adopted c \<or>
        (adopted c = None \<and> (\<exists>p. adopted c' = Some p \<and> loaded_apis (shared ts) s = Some p))"
  shows "thread_inv s
    (ts\<lparr>shared := sh, holder := h, initializing := ini, pc := (pc ts)(t := c'), prog := pr\<rparr>)"
    (is "thread_inv s ?ts'")
proof (rule thread_invI)
  note D = thread_invD[OF inv]
  from D(3)[of t] at have ld: "loading s c \<longleftrightarrow> initializing ts s = Some t" by simp
  show "holds_lock (pc ?ts' u) \<longleftrightarrow> holder ?ts' = Some u" for u
    using lock[of u] by simp
  show "driver_api_mutex (shared ?ts') \<longleftrightarrow> holder ?ts' \<noteq> None"
    using mutex by simp
  show "loading s (pc ?ts' u) \<longleftrightarrow> initializing ?ts' s = Some u" for u
    using D(3)[of u] ld load ini by simp
  show "top_only (pc ?ts' u)" for u
    using D(4)[of u] top by simp
  show "initializing ?ts' s = None" if "entry_point (shared ?ts') s \<noteq> None"
    using that D(5) entry ini by simp
  show "loaded_apis (shared ?ts') s = None" if "awaits_absent s (pc ?ts' u)" for u
    using that D(6)[of u] absent table by (simp split: if_splits)
  have in_table: "in_table s ?ts' = in_table s ts"
    using pend by (cases h; cases "holder ts") (simp_all add: in_table_def table)
  have pointer: "slot_pointer s ?ts' =
      (if loading s c \<and> entry_point (shared ts) s = None then adopted c' else slot_pointer s ts)"
    using ld at by (auto simp: slot_pointer_def entry ini split: option.splits)
  have old: "slot_pointer s ts = adopted c" if "loading s c"
    using that ld D(5) at by (cases "entry_point (shared ts) s") (auto simp: slot_pointer_def)
  show "resolves s (shared ?ts') \<le> thread_bound s ?ts'"
  proof (cases "loading s c \<and> entry_point (shared ts) s = None")
    case False
    with pointer in_table have "thread_bound s ?ts' = thread_bound s ts"
      by (simp add: thread_bound_def)
    with D(7) count show ?thesis by simp
  next
    case True
    with adopt consider "adopted c' = adopted c"
      | p where "adopted c = None" "adopted c' = Some p" "loaded_apis (shared ts) s = Some p"
      by blast
    then show ?thesis
    proof cases
      case 1
      with True pointer in_table old have "thread_bound s ?ts' = thread_bound s ts"
        by (simp add: thread_bound_def)
      with D(7) count show ?thesis by simp
    next
      case 2
      with True have "slot_pointer s ts = None" "in_table s ts"
        using old by (simp_all add: in_table_def)
      with D(7) have "resolves s (shared ts) \<le> 1"
        by (simp add: thread_bound_def)
      moreover from True 2 pointer in_table \<open>in_table s ts\<close>
      have "1 \<le> thread_bound s ?ts'"
        by (simp add: thread_bound_def)
      ultimately show ?thesis using count by simp
    qed
  qed
  have keep: "loaded_apis (shared ?ts') s = Some q \<or>
       (case initializing ?ts' s of Some t \<Rightarrow> load_storing (pc ?ts' t) | None \<Rightarrow> False)"
    if "loaded_apis (shared ts) s = Some q \<or>
       (case initializing ts s of Some t \<Rightarrow> load_storing (pc ts t) | None \<Rightarrow> False)" for q
    using that lstore at ld by (auto simp: table ini split: option.splits)
  show "loaded_apis (shared ?ts') s = Some q \<or>
       (case initializing ?ts' s of Some t \<Rightarrow> load_storing (pc ?ts' t) | None \<Rightarrow> False)"
    if q: "slot_pointer s ?ts' = Some q" "q \<noteq> nullptr" for q
  proof (cases "loading s c \<and> entry_point (shared ts) s = None")
    case False
    with q pointer have "slot_pointer s ts = Some q" by simp
    from D(8)[OF this q(2)] show ?thesis by (rule keep)
  next
    case True
    with q pointer have c': "adopted c' = Some q" by simp
    from True adopt consider "adopted c' = adopted c"
      | p where "adopted c = None" "adopted c' = Some p" "loaded_apis (shared ts) s = Some p"
      by blast
    then show ?thesis
    proof cases
      case 1
      with c' True old have "slot_pointer s ts = Some q" by simp
      from D(8)[OF this q(2)] show ?thesis by (rule keep)
    next
      case 2
      with c' show ?thesis by (simp add: table)
    qed
  qed
qed

text \<open>Steps that touch neither the mutex nor anything of the symbol.\<close>

lemma silent_step:
  assumes inv: "thread_inv s ts" and at: "pc ts t = c"
    and table: "loaded_apis sh s = loaded_apis (shared ts) s"
    and entry: "entry_point sh s = entry_point (shared ts) s"
    and ini: "ini s = initializing ts s"
    and mutex: "driver_api_mutex sh = driver_api_mutex (shared ts)"
    and count: "resolves s sh = resolves s (shared ts)"
    and lock: "holds_lock c' = holds_lock c"
    and store: "storing s c' = storing s c"
    and load: "loading s c' = loading s c"
    and top: "top_only c'"
    and absent: "awaits_absent s c' \<Longrightarrow> loaded_apis (shared ts) s = None"
    and lstore: "loading s c \<Longrightarrow> load_storing c' = load_storing c"
    and adopt: "loading s c \<Longrightarrow> adopted c' = adopted c \<or>
        (adopted c = None \<and> (\<exists>p. adopted c' = Some p \<and> loaded_apis (shared ts) s = Some p))"
  shows "thread_inv s
    (ts\<lparr>shared := sh, holder := holder ts, initializing := ini, pc := (pc ts)(t := c'), prog := pr\<rparr>)"
proof (rule quiet_step[where h = "holder ts" and sh = sh and ini = ini and c = c and c' = c'])
  note D = thread_invD[OF inv]
  show "driver_api_mutex sh \<longleftrightarrow> holder ts \<noteq> None"
    using D(2) mutex by simp
  show "holds_lock (((pc ts)(t := c')) u) \<longleftrightarrow> holder ts = Some u" for u
    using D(1)[of u] D(1)[of t] at lock by simp
  show "(case holder ts of Some u \<Rightarrow> storing s (((pc ts)(t := c')) u) | None \<Rightarrow> False) =
        (case holder ts of Some u \<Rightarrow> storing s (pc ts u) | None \<Rightarrow> False)"
    using at store by (simp split: option.splits)
qed (fact | erule absent | erule adopt | erule lstore)+

lemma lock_step:
  assumes inv: "thread_inv s ts" and at: "pc ts t = c"
    and free: "\<not> driver_api_mutex (shared ts)"
    and lock: "holds_lock c'" and store: "\<not> storing s c'"
    and load: "loading s c' = loading s c"
    and top: "top_only c'"
    and absent: "\<not> awaits_absent s c'"
    and lstore: "loading s c \<Longrightarrow> load_storing c' = load_storing c"
    and adopt: "adopted c' = adopted c"
  shows "thread_inv s (goto t c' (acquire t ts))"
proof -
  note D = thread_invD[OF inv]
  from D(2) free have none: "holder ts = None" by simp
  have "thread_inv s
    (ts\<lparr>shared := emit Lock ((shared ts)\<lparr>driver_api_mutex := True\<rparr>), holder := Some t,
        initializing := initializing ts, pc := (pc ts)(t := c'), prog := prog ts\<rparr>)"
  proof (rule quiet_step[where h = "Some t" and c = c and c' = c'])
    show "holds_lock (((pc ts)(t := c')) u) \<longleftrightarrow> Some t = Some u" for u
      using D(1)[of u] none lock by auto
    show "(case Some t of Some u \<Rightarrow> storing s (((pc ts)(t := c')) u) | None \<Rightarrow> False) =
        (case holder ts of Some u \<Rightarrow> storing s (pc ts u) | None \<Rightarrow> False)"
      using none store by simp
  qed (use inv at absent adopt load top lstore in \<open>simp_all add: emit_def resolves_def\<close>)
  then show ?thesis
    by (simp add: goto_def acquire_def)
qed

lemma unlock_step:
  assumes inv: "thread_inv s ts" and at: "pc ts t = c"
    and held: "holds_lock c" and store: "\<not> storing s c"
    and lock: "\<not> holds_lock c'"
    and load: "loading s c' = loading s c"
    and top: "top_only c'"
    and absent: "\<not> awaits_absent s c'"
    and lstore: "loading s c \<Longrightarrow> load_storing c' = load_storing c"
    and adopt: "adopted c' = adopted c"
  shows "thread_inv s (goto t c' (release ts))"
proof -
  note D = thread_invD[OF inv]
  from D(1)[of t] at held have own: "holder ts = Some t" by simp
  have "thread_inv s
    (ts\<lparr>shared := emit Unlock ((shared ts)\<lparr>driver_api_mutex := False\<rparr>), holder := None,
        initializing := initializing ts, pc := (pc ts)(t := c'), prog := prog ts\<rparr>)"
  proof (rule quiet_step[where h = None and c = c and c' = c'])
    show "holds_lock (((pc ts)(t := c')) u) \<longleftrightarrow> None = Some u" for u
      using D(1)[of u] own lock by auto
    show "(case None of Some u \<Rightarrow> storing s (((pc ts)(t := c')) u) | None \<Rightarrow> False) =
        (case holder ts of Some u \<Rightarrow> storing s (pc ts u) | None \<Rightarrow> False)"
      using own at store by simp
  qed (use inv at absent adopt load top lstore in \<open>simp_all add: emit_def resolves_def\<close>)
  then show ?thesis
    by (simp add: goto_def release_def)
qed

lemma enter_step:
  assumes inv: "thread_inv s ts" and at: "pc ts t = Enter (s, v, args, k)"
    and ent: "entry_point (shared ts) s = None" and none: "initializing ts s = None"
  shows "thread_inv s
    (goto t (LoadLock (s, v, args, k)) (ts\<lparr>initializing := (initializing ts)(s \<mapsto> t)\<rparr>))"
    (is "thread_inv s ?ts'")
proof (rule thread_invI)
  note D = thread_invD[OF inv]
  show "holds_lock (pc ?ts' u) \<longleftrightarrow> holder ?ts' = Some u" for u
    using D(1)[of u] D(1)[of t] at by (simp add: goto_def)
  show "driver_api_mutex (shared ?ts') \<longleftrightarrow> holder ?ts' \<noteq> None"
    using D(2) by (simp add: goto_def)
  show "loading s (pc ?ts' u) \<longleftrightarrow> initializing ?ts' s = Some u" for u
    using D(3)[of u] none by (auto simp: goto_def)
  show "top_only (pc ?ts' u)" for u
    using D(4)[of u] by (simp add: goto_def)
  show "initializing ?ts' s = None" if "entry_point (shared ?ts') s \<noteq> None"
    using that ent by (simp add: goto_def)
  show "loaded_apis (shared ?ts') s = None" if "awaits_absent s (pc ?ts' u)" for u
    using that D(6)[of u] by (simp add: goto_def split: if_splits)
  have pointer: "slot_pointer s ?ts' = None" "slot_pointer s ts = None"
    using ent none by (simp_all add: slot_pointer_def goto_def)
  have "in_table s ?ts' = in_table s ts"
    using at by (cases "holder ts") (auto simp: in_table_def goto_def)
  with pointer have "thread_bound s ?ts' = thread_bound s ts"
    by (simp add: thread_bound_def)
  with D(7) show "resolves s (shared ?ts') \<le> thread_bound s ?ts'"
    by (simp add: goto_def)
  show "loaded_apis (shared ?ts') s = Some q \<or>
       (case initializing ?ts' s of Some t \<Rightarrow> load_storing (pc ?ts' t) | None \<Rightarrow> False)"
    if "slot_pointer s ?ts' = Some q" for q
    using that pointer by simp
qed

lemma load_resolve_step:
  assumes inv: "thread_inv s ts" and at: "pc ts t = LoadResolve (s, v, args, k)"
  shows "thread_inv s
    (goto t (LoadStore (s, v, args, k) p)
      (ts\<lparr>shared := (shared ts)\<lparr>trace := trace (shared ts) @ Resolve s v # map Warn ws\<rparr>\<rparr>))"
    (is "thread_inv s ?ts'")
proof (rule thread_invI)
  note D = thread_invD[OF inv]
  from D(1)[of t] at have own: "holder ts = Some t" by simp
  from D(3)[of t] at have init: "initializing ts s = Some t" by simp
  from D(5) init have ent: "entry_point (shared ts) s = None"
    by (cases "entry_point (shared ts) s") auto
  from D(6)[of t] at have tab: "loaded_apis (shared ts) s = None" by simp
  show "holds_lock (pc ?ts' u) \<longleftrightarrow> holder ?ts' = Some u" for u
    using D(1)[of u] own by (simp add: goto_def)
  show "driver_api_mutex (shared ?ts') \<longleftrightarrow> holder ?ts' \<noteq> None"
    using D(2) by (simp add: goto_def)
  show "loading s (pc ?ts' u) \<longleftrightarrow> initializing ?ts' s = Some u" for u
    using D(3)[of u] init by (simp add: goto_def)
  show "top_only (pc ?ts' u)" for u
    using D(4)[of u] D(4)[of t] at by (simp add: goto_def)
  show "initializing ?ts' s = None" if "entry_point (shared ?ts') s \<noteq> None"
    using that ent by (simp add: goto_def)
  show "loaded_apis (shared ?ts') s = None" if "awaits_absent s (pc ?ts' u)" for u
    using tab by (simp add: goto_def)
  have "slot_pointer s ts = None" "\<not> in_table s ts"
    using ent init at own tab by (simp_all add: slot_pointer_def in_table_def)
  with D(7) have zero: "resolves s (shared ts) = 0"
    by (simp add: thread_bound_def)
  have "slot_pointer s ?ts' = Some p" "\<not> in_table s ?ts'"
    using ent init own tab by (simp_all add: slot_pointer_def in_table_def goto_def)
  then have "thread_bound s ?ts' = 1"
    by (simp add: thread_bound_def)
  with zero show "resolves s (shared ?ts') \<le> thread_bound s ?ts'"
    by (simp add: goto_def resolves_def)
  show "loaded_apis (shared ?ts') s = Some q \<or>
       (case initializing ?ts' s of Some t \<Rightarrow> load_storing (pc ?ts' t) | None \<Rightarrow> False)" for q
    using init by (simp add: goto_def)
qed

lemma no_foreign_pointer:
  assumes inv: "thread_inv s ts" and own: "holder ts = Some t"
    and other: "initializing ts s \<noteq> Some t" and tab: "loaded_apis (shared ts) s = None"
  shows "slot_pointer s ts = None \<or> slot_pointer s ts = Some nullptr"
proof (rule ccontr)
  note D = thread_invD[OF inv]
  assume "\<not> ?thesis"
  then obtain q where q: "slot_pointer s ts = Some q" "q \<noteq> nullptr"
    by (cases "slot_pointer s ts") auto
  from D(8)[OF q] tab obtain u where u: "initializing ts s = Some u" "load_storing (pc ts u)"
    by (auto split: option.splits)
  from u(2) have "holds_lock (pc ts u)" by (rule load_storing_holds_lock)
  with D(1)[of u] own have "u = t" by simp
  with u(1) other show False by simp
qed

lemma probe_resolve_step:
  assumes inv: "thread_inv s ts" and at: "pc ts t = ProbeResolve s v"
  shows "thread_inv s
    (goto t (ProbeStore s v p)
      (ts\<lparr>shared := (shared ts)\<lparr>trace := trace (shared ts) @ Resolve s v # map Warn ws\<rparr>\<rparr>))"
    (is "thread_inv s ?ts'")
proof (rule thread_invI)
  note D = thread_invD[OF inv]
  from D(1)[of t] at have own: "holder ts = Some t" by simp
  from D(3)[of t] at have other: "initializing ts s \<noteq> Some t" by simp
  from D(6)[of t] at have tab: "loaded_apis (shared ts) s = None" by simp
  show "holds_lock (pc ?ts' u) \<longleftrightarrow> holder ?ts' = Some u" for u
    using D(1)[of u] own by (simp add: goto_def)
  show "driver_api_mutex (shared ?ts') \<longleftrightarrow> holder ?ts' \<noteq> None"
    using D(2) by (simp add: goto_def)
  show "loading s (pc ?ts' u) \<longleftrightarrow> initializing ?ts' s = Some u" for u
    using D(3)[of u] other by (simp add: goto_def)
  show "top_only (pc ?ts' u)" for u
    using D(4)[of u] by (simp add: goto_def)
  show "initializing ?ts' s = None" if "entry_point (shared ?ts') s \<noteq> None"
    using that D(5) by (simp add: goto_def)
  show "loaded_apis (shared ?ts') s = None" if "awaits_absent s (pc ?ts' u)" for u
    using tab by (simp add: goto_def)
  have same: "slot_pointer s ?ts' = slot_pointer s ts"
    using other by (auto simp: slot_pointer_def goto_def split: option.splits)
  have before: "\<not> in_table s ts" and after: "in_table s ?ts'"
    using own tab at by (simp_all add: in_table_def goto_def)
  from no_foreign_pointer[OF inv own other tab]
  show "resolves s (shared ?ts') \<le> thread_bound s ?ts'"
  proof
    assume none: "slot_pointer s ts = None"
    with D(7) before have "resolves s (shared ts) = 0"
      by (simp add: thread_bound_def)
    moreover from none same after have "thread_bound s ?ts' = 1"
      by (simp add: thread_bound_def)
    ultimately show ?thesis
      by (simp add: goto_def resolves_def)
  next
    assume null: "slot_pointer s ts = Some nullptr"
    with D(7) before have "resolves s (shared ts) \<le> 1"
      by (simp add: thread_bound_def)
    moreover from null same after have "thread_bound s ?ts' = 2"
      by (simp add: thread_bound_def)
    ultimately show ?thesis
      by (simp add: goto_def resolves_def)
  qed
  show "loaded_apis (shared ?ts') s = Some q \<or>
       (case initializing ?ts' s of Some t \<Rightarrow> load_storing (pc ?ts' t) | None \<Rightarrow> False)"
    if "slot_pointer s ?ts' = Some q" "q \<noteq> nullptr" for q
    using that same no_foreign_pointer[OF inv own other tab] by auto
qed

lemma sole_holder:
  assumes inv: "thread_inv s ts" and own: "holder ts = Some t"
  shows "awaits_absent s (pc ts u) \<Longrightarrow> u = t"
  using thread_invD(1)[OF inv, of u] own awaits_absent_holds_lock[of s "pc ts u"] by simp

lemma load_store_step:
  assumes inv: "thread_inv s ts" and at: "pc ts t = LoadStore (s, v, args, k) p"
    and p: "p \<noteq> nullptr"
  shows "thread_inv s
    (goto t (LoadUnlock (s, v, args, k) p)
      (ts\<lparr>shared := emit (TablePut s p)
           ((shared ts)\<lparr>loaded_apis := (loaded_apis (shared ts))(s \<mapsto> p)\<rparr>)\<rparr>))"
    (is "thread_inv s ?ts'")
proof (rule thread_invI)
  note D = thread_invD[OF inv]
  from D(1)[of t] at have own: "holder ts = Some t" by simp
  from D(3)[of t] at have init: "initializing ts s = Some t" by simp
  from D(5) init have ent: "entry_point (shared ts) s = None"
    by (cases "entry_point (shared ts) s") auto
  from D(6)[of t] at have tab: "loaded_apis (shared ts) s = None" by simp
  show "holds_lock (pc ?ts' u) \<longleftrightarrow> holder ?ts' = Some u" for u
    using D(1)[of u] own by (simp add: goto_def)
  show "driver_api_mutex (shared ?ts') \<longleftrightarrow> holder ?ts' \<noteq> None"
    using D(2) by (simp add: goto_def emit_def)
  show "loading s (pc ?ts' u) \<longleftrightarrow> initializing ?ts' s = Some u" for u
    using D(3)[of u] init by (simp add: goto_def)
  show "top_only (pc ?ts' u)" for u
    using D(4)[of u] D(4)[of t] at by (simp add: goto_def)
  show "initializing ?ts' s = None" if "entry_point (shared ?ts') s \<noteq> None"
    using that ent by (simp add: goto_def emit_def)
  show "loaded_apis (shared ?ts') s = None" if "awaits_absent s (pc ?ts' u)" for u
    using that sole_holder[OF inv own, of u] by (simp add: goto_def split: if_splits)
  have "slot_pointer s ts = Some p" "\<not> in_table s ts"
    using ent init at own tab by (simp_all add: slot_pointer_def in_table_def)
  with D(7) have one: "resolves s (shared ts) \<le> 1"
    by (simp add: thread_bound_def)
  have after: "slot_pointer s ?ts' = Some p" "in_table s ?ts'"
    using ent init own tab by (simp_all add: slot_pointer_def in_table_def goto_def emit_def)
  with p have "thread_bound s ?ts' = 1"
    by (simp add: thread_bound_def)
  with one show "resolves s (shared ?ts') \<le> thread_bound s ?ts'"
    by (simp add: goto_def resolves_def emit_def)
  show "loaded_apis (shared ?ts') s = Some q \<or>
       (case initializing ?ts' s of Some t \<Rightarrow> load_storing (pc ?ts' t) | None \<Rightarrow> False)"
    if "slot_pointer s ?ts' = Some q" for q
    using that after(1) by (simp add: goto_def emit_def)
qed

lemma load_skip_step:
  assumes inv: "thread_inv s ts" and at: "pc ts t = LoadStore (s, v, args, k) nullptr"
  shows "thread_inv s (goto t (LoadUnlock (s, v, args, k) nullptr) ts)"
    (is "thread_inv s ?ts'")
proof (rule thread_invI)
  note D = thread_invD[OF inv]
  from D(1)[of t] at have own: "holder ts = Some t" by simp
  from D(3)[of t] at have init: "initializing ts s = Some t" by simp
  from D(5) init have ent: "entry_point (shared ts) s = None"
    by (cases "entry_point (shared ts) s") auto
  from D(6)[of t] at have tab: "loaded_apis (shared ts) s = None" by simp
  show "holds_lock (pc ?ts' u) \<longleftrightarrow> holder ?ts' = Some u" for u
    using D(1)[of u] own by (simp add: goto_def)
  show "driver_api_mutex (shared ?ts') \<longleftrightarrow> holder ?ts' \<noteq> None"
    using D(2) by (simp add: goto_def)
  show "loading s (pc ?ts' u) \<longleftrightarrow> initializing ?ts' s = Some u" for u
    using D(3)[of u] init by (simp add: goto_def)
  show "top_only (pc ?ts' u)" for u
    using D(4)[of u] D(4)[of t] at by (simp add: goto_def)
  show "initializing ?ts' s = None" if "entry_point (shared ?ts') s \<noteq> None"
    using that ent by (simp add: goto_def)
  show "loaded_apis (shared ?ts') s = None" if "awaits_absent s (pc ?ts' u)" for u
    using tab by (simp add: goto_def)
  have "slot_pointer s ts = Some nullptr" "\<not> in_table s ts"
    using ent init at own tab by (simp_all add: slot_pointer_def in_table_def)
  with D(7) have one: "resolves s (shared ts) \<le> 1"
    by (simp add: thread_bound_def)
  have after: "slot_pointer s ?ts' = Some nullptr" "\<not> in_table s ?ts'"
    using ent init own tab by (simp_all add: slot_pointer_def in_table_def goto_def)
  then have "thread_bound s ?ts' = 1"
    by (simp add: thread_bound_def)
  with one show "resolves s (shared ?ts') \<le> thread_bound s ?ts'"
    by (simp add: goto_def)
  show "loaded_apis (shared ?ts') s = Some q \<or>
       (case initializing ?ts' s of Some t \<Rightarrow> load_storing (pc ?ts' t) | None \<Rightarrow> False)"
    if "slot_pointer s ?ts' = Some q" "q \<noteq> nullptr" for q
    using that after(1) by simp
qed

lemma probe_store_step:
  assumes inv: "thread_inv s ts" and at: "pc ts t = ProbeStore s v p"
  shows "thread_inv s
    (goto t (ProbeUnlock b)
      (ts\<lparr>shared := emit (TablePut s p)
           ((shared ts)\<lparr>loaded_apis := (loaded_apis (shared ts))(s \<mapsto> p)\<rparr>)\<rparr>))"
    (is "thread_inv s ?ts'")
proof (rule thread_invI)
  note D = thread_invD[OF inv]
  from D(1)[of t] at have own: "holder ts = Some t" by simp
  from D(3)[of t] at have other: "initializing ts s \<noteq> Some t" by simp
  from D(6)[of t] at have tab: "loaded_apis (shared ts) s = None" by simp
  show "holds_lock (pc ?ts' u) \<longleftrightarrow> holder ?ts' = Some u" for u
    using D(1)[of u] own by (simp add: goto_def)
  show "driver_api_mutex (shared ?ts') \<longleftrightarrow> holder ?ts' \<noteq> None"
    using D(2) by (simp add: goto_def emit_def)
  show "loading s (pc ?ts' u) \<longleftrightarrow> initializing ?ts' s = Some u" for u
    using D(3)[of u] other by (simp add: goto_def)
  show "top_only (pc ?ts' u)" for u
    using D(4)[of u] by (simp add: goto_def)
  show "initializing ?ts' s = None" if "entry_point (shared ?ts') s \<noteq> None"
    using that D(5) by (simp add: goto_def emit_def)
  show "loaded_apis (shared ?ts') s = None" if "awaits_absent s (pc ?ts' u)" for u
    using that sole_holder[OF inv own, of u] by (simp add: goto_def split: if_splits)
  have same: "slot_pointer s ?ts' = slot_pointer s ts"
    using other by (auto simp: slot_pointer_def goto_def emit_def split: option.splits)
  have "in_table s ts" "in_table s ?ts'"
    using own at by (simp_all add: in_table_def goto_def emit_def)
  with same have "thread_bound s ?ts' = thread_bound s ts"
    by (simp add: thread_bound_def)
  with D(7) show "resolves s (shared ?ts') \<le> thread_bound s ?ts'"
    by (simp add: goto_def resolves_def emit_def)
  show "loaded_apis (shared ?ts') s = Some q \<or>
       (case initializing ?ts' s of Some t \<Rightarrow> load_storing (pc ?ts' t) | None \<Rightarrow> False)"
    if "slot_pointer s ?ts' = Some q" "q \<noteq> nullptr" for q
    using that same no_foreign_pointer[OF inv own other tab] by auto
qed

lemma publish_step:
  assumes inv: "thread_inv s ts" and at: "pc ts t = Publish (s, v, args, k) p"
  shows "thread_inv s
    (goto t (Check (s, v, args, k) p)
      (ts\<lparr>shared := (shared ts)\<lparr>entry_point := (entry_point (shared ts))(s \<mapsto> p)\<rparr>,
         initializing := (initializing ts)(s := None)\<rparr>))"
    (is "thread_inv s ?ts'")
proof (rule thread_invI)
  note D = thread_invD[OF inv]
  from D(4)[of t] at have k: "k = Top" by simp
  from D(1)[of t] at k have free: "holder ts \<noteq> Some t" by simp
  from D(3)[of t] at have init: "initializing ts s = Some t" by simp
  from D(5) init have ent: "entry_point (shared ts) s = None"
    by (cases "entry_point (shared ts) s") auto
  show "holds_lock (pc ?ts' u) \<longleftrightarrow> holder ?ts' = Some u" for u
    using D(1)[of u] free k by (auto simp: goto_def)
  show "driver_api_mutex (shared ?ts') \<longleftrightarrow> holder ?ts' \<noteq> None"
    using D(2) by (simp add: goto_def)
  show "loading s (pc ?ts' u) \<longleftrightarrow> initializing ?ts' s = Some u" for u
    using D(3)[of u] init by (auto simp: goto_def)
  show "top_only (pc ?ts' u)" for u
    using D(4)[of u] by (simp add: goto_def)
  show "initializing ?ts' s = None"
    by (simp add: goto_def)
  show "loaded_apis (shared ?ts') s = None" if "awaits_absent s (pc ?ts' u)" for u
    using that D(6)[of u] by (simp add: goto_def split: if_splits)
  have before: "slot_pointer s ts = Some p"
    using ent init at by (simp add: slot_pointer_def)
  have after: "slot_pointer s ?ts' = Some p"
    by (simp add: slot_pointer_def goto_def)
  have "in_table s ?ts' = in_table s ts"
    using free by (cases "holder ts") (auto simp: in_table_def goto_def)
  with before after have "thread_bound s ?ts' = thread_bound s ts"
    by (simp add: thread_bound_def)
  with D(7) show "resolves s (shared ?ts') \<le> thread_bound s ?ts'"
    by (simp add: goto_def resolves_def)
  show "loaded_apis (shared ?ts') s = Some q \<or>
       (case initializing ?ts' s of Some t \<Rightarrow> load_storing (pc ?ts' t) | None \<Rightarrow> False)"
    if "slot_pointer s ?ts' = Some q" "q \<noteq> nullptr" for q
    using that after D(8)[of q] before init at by (simp add: goto_def)
qed

lemma silent_goto:
  assumes "thread_inv s ts" and "pc ts t = c"
    and "loaded_apis sh s = loaded_apis (shared ts) s"
    and "entry_point sh s = entry_point (shared ts) s"
    and "driver_api_mutex sh = driver_api_mutex (shared ts)"
    and "resolves s sh = resolves s (shared ts)"
    and "holds_lock c' = holds_lock c"
    and "storing s c' = storing s c"
    and "loading s c' = loading s c"
    and "top_only c'"
    and "awaits_absent s c' \<Longrightarrow> loaded_apis (shared ts) s = None"
    and "loading s c \<Longrightarrow> load_storing c' = load_storing c"
    and "loading s c \<Longrightarrow> adopted c' = adopted c \<or>
        (adopted c = None \<and> (\<exists>p. adopted c' = Some p \<and> loaded_apis (shared ts) s = Some p))"
  shows "thread_inv s (goto t c' (ts\<lparr>shared := sh\<rparr>))"
proof -
  have "thread_inv s
    (ts\<lparr>shared := sh, holder := holder ts, initializing := initializing ts,
        pc := (pc ts)(t := c'), prog := prog ts\<rparr>)"
    by (rule silent_step[where c = c and c' = c']) (use assms in \<open>simp_all\<close>)
  then show ?thesis by (simp add: goto_def)
qed

lemma silent_move:
  assumes "thread_inv s ts" and "pc ts t = c"
    and "holds_lock c' = holds_lock c"
    and "storing s c' = storing s c"
    and "loading s c' = loading s c"
    and "top_only c'"
    and "awaits_absent s c' \<Longrightarrow> loaded_apis (shared ts) s = None"
    and "loading s c \<Longrightarrow> load_storing c' = load_storing c"
    and "loading s c \<Longrightarrow> adopted c' = adopted c \<or>
        (adopted c = None \<and> (\<exists>p. adopted c' = Some p \<and> loaded_apis (shared ts) s = Some p))"
  shows "thread_inv s (goto t c' ts)"
proof -
  have "thread_inv s (goto t c' (ts\<lparr>shared := shared ts\<rparr>))"
    by (rule silent_goto[where c = c]) (use assms in \<open>simp_all\<close>)
  then show ?thesis by simp
qed

lemma thread_step_inv:
  assumes inv: "thread_inv s ts" and step: "thread_step rt t (pc ts t) ts = Some ts'"
  shows "thread_inv s ts'"
proof (cases "pc ts t")
  note D = thread_invD[OF inv]
  {
    case Ready
    with step obtain x xs where ts': "ts' = goto t (start rt ts x) (ts\<lparr>prog := (prog ts)(t := xs)\<rparr>)"
      by (auto split: list.splits)
    have "thread_inv s
      (ts\<lparr>shared := shared ts, holder := holder ts, initializing := initializing ts,
          pc := (pc ts)(t := start rt ts x), prog := (prog ts)(t := xs)\<rparr>)"
      by (rule silent_step[where c = Ready]) (use inv Ready in \<open>simp_all\<close>)
    moreover have "ts' = ts\<lparr>shared := shared ts, holder := holder ts, initializing := initializing ts,
          pc := (pc ts)(t := start rt ts x), prog := (prog ts)(t := xs)\<rparr>"
      unfolding ts' by (cases ts) (simp add: goto_def)
    ultimately show ?thesis by simp
  next
    case (Enter fr)
    obtain f v args k where fr: "fr = (f, v, args, k)" by (cases fr)
    note at = Enter[unfolded fr]
    show ?thesis
    proof (cases "entry_point (shared ts) f")
      case (Some p)
      with step at have "ts' = goto t (Check (f, v, args, k) p) ts" by simp
      then show ?thesis
        using silent_move[OF inv at, of "Check (f, v, args, k) p"] by simp
    next
      case None
      with step at have free: "initializing ts f = None"
        and ts': "ts' = goto t (LoadLock (f, v, args, k))
            (ts\<lparr>initializing := (initializing ts)(f \<mapsto> t)\<rparr>)"
        by (auto split: option.splits)
      show ?thesis
      proof (cases "f = s")
        case True
        with inv at None free show ?thesis
          unfolding ts' by (simp add: enter_step)
      next
        case False
        have "thread_inv s
          (ts\<lparr>shared := shared ts, holder := holder ts, initializing := (initializing ts)(f \<mapsto> t),
              pc := (pc ts)(t := LoadLock (f, v, args, k)), prog := prog ts\<rparr>)"
          by (rule silent_step[where c = "Enter (f, v, args, k)"]) (use inv at False in \<open>simp_all\<close>)
        moreover have "ts' = ts\<lparr>shared := shared ts, holder := holder ts,
              initializing := (initializing ts)(f \<mapsto> t),
              pc := (pc ts)(t := LoadLock (f, v, args, k)), prog := prog ts\<rparr>"
          unfolding ts' by (cases ts) (simp add: goto_def)
        ultimately show ?thesis by simp
      qed
    qed
  next
    case (LoadLock fr)
    obtain f v args k where fr: "fr = (f, v, args, k)" by (cases fr)
    note at = LoadLock[unfolded fr]
    from step at have free: "\<not> driver_api_mutex (shared ts)"
      and ts': "ts' = goto t (LoadFind (f, v, args, k)) (acquire t ts)"
      by (auto simp: fr split: if_splits)
    from free D(2) D(1)[of t] at have "k = Top" by simp
    then show ?thesis
      unfolding ts' by (intro lock_step[OF inv at free]) simp_all
  next
    case (LoadFind fr)
    obtain f v args k where fr: "fr = (f, v, args, k)" by (cases fr)
    note at = LoadFind[unfolded fr]
    from D(4)[of t] at have k: "k = Top" by simp
    show ?thesis
    proof (cases "loaded_apis (shared ts) f")
      case None
      with step at have "ts' = goto t (LoadResolve (f, v, args, k)) ts" by simp
      then show ?thesis
        using silent_move[OF inv at, of "LoadResolve (f, v, args, k)"] None k by auto
    next
      case (Some p)
      with step at have "ts' = goto t (LoadUnlock (f, v, args, k) p) ts" by simp
      then show ?thesis
        using silent_move[OF inv at, of "LoadUnlock (f, v, args, k) p"] Some k by auto
    qed
  next
    case (LoadResolve fr)
    obtain f v args k where fr: "fr = (f, v, args, k)" by (cases fr)
    note at = LoadResolve[unfolded fr]
    from D(4)[of t] at have k: "k = Top" by simp
    obtain p ws where h: "\<forall>st. getDriverEntryPoint rt f v st =
        (Returns p, st\<lparr>trace := trace st @ Resolve f v # map Warn ws\<rparr>)"
      by (rule getDriverEntryPoint_result)
    with step at have ts': "ts' = goto t (LoadStore (f, v, args, k) p)
        (ts\<lparr>shared := (shared ts)\<lparr>trace := trace (shared ts) @ Resolve f v # map Warn ws\<rparr>\<rparr>)"
      by simp
    show ?thesis
    proof (cases "f = s")
      case True
      with inv at show ?thesis
        unfolding ts' by (simp add: load_resolve_step)
    next
      case False
      with k show ?thesis
        unfolding ts' by (intro silent_goto[OF inv at]) (simp_all add: resolves_def)
    qed
  next
    case (LoadStore fr p)
    obtain f v args k where fr: "fr = (f, v, args, k)" by (cases fr)
    note at = LoadStore[unfolded fr]
    from D(4)[of t] at have k: "k = Top" by simp
    show ?thesis
    proof (cases "p = nullptr")
      case True
      with step at have ts': "ts' = goto t (LoadUnlock (f, v, args, k) nullptr) ts" by simp
      show ?thesis
      proof (cases "f = s")
        case True
        with inv at \<open>p = nullptr\<close> show ?thesis
          unfolding ts' by (simp add: load_skip_step)
      next
        case False
        with k show ?thesis
          unfolding ts' by (intro silent_move[OF inv at]) simp_all
      qed
    next
      case False
      with step at have ts': "ts' = goto t (LoadUnlock (f, v, args, k) p)
          (ts\<lparr>shared := emit (TablePut f p)
               ((shared ts)\<lparr>loaded_apis := (loaded_apis (shared ts))(f \<mapsto> p)\<rparr>)\<rparr>)"
        by simp
      show ?thesis
      proof (cases "f = s")
        case True
        with inv at \<open>p \<noteq> nullptr\<close> show ?thesis
          unfolding ts' by (simp add: load_store_step)
      next
        case False
        with k show ?thesis
          unfolding ts' by (intro silent_goto[OF inv at]) (simp_all add: emit_def resolves_def)
      qed
    qed
  next
    case (LoadUnlock fr p)
    obtain f v args k where fr: "fr = (f, v, args, k)" by (cases fr)
    note at = LoadUnlock[unfolded fr]
    from D(4)[of t] at have k: "k = Top" by simp
    from step at have ts': "ts' = goto t (Publish (f, v, args, k) p) (release ts)"
      by (simp add: fr)
    from k show ?thesis
      unfolding ts' by (intro unlock_step[OF inv at]) simp_all
  next
    case (Publish fr p)
    obtain f v args k where fr: "fr = (f, v, args, k)" by (cases fr)
    note at = Publish[unfolded fr]
    from step at have ts': "ts' = goto t (Check (f, v, args, k) p)
        (ts\<lparr>shared := (shared ts)\<lparr>entry_point := (entry_point (shared ts))(f \<mapsto> p)\<rparr>,
           initializing := (initializing ts)(f := None)\<rparr>)"
      by simp
    show ?thesis
    proof (cases "f = s")
      case True
      with inv at show ?thesis
        unfolding ts' by (simp add: publish_step)
    next
      case False
      have "thread_inv s
        (ts\<lparr>shared := (shared ts)\<lparr>entry_point := (entry_point (shared ts))(f \<mapsto> p)\<rparr>,
            holder := holder ts, initializing := (initializing ts)(f := None),
            pc := (pc ts)(t := Check (f, v, args, k) p), prog := prog ts\<rparr>)"
        by (rule silent_step[where c = "Publish (f, v, args, k) p"])
           (use inv at False in \<open>simp_all add: resolves_def\<close>)
      moreover have "ts' = ts\<lparr>shared := (shared ts)\<lparr>entry_point := (entry_point (shared ts))(f \<mapsto> p)\<rparr>,
            holder := holder ts, initializing := (initializing ts)(f := None),
            pc := (pc ts)(t := Check (f, v, args, k) p), prog := prog ts\<rparr>"
        unfolding ts' by (cases ts) (simp add: goto_def)
      ultimately show ?thesis by simp
    qed
  next
    case (Check fr p)
    obtain f v args k where fr: "fr = (f, v, args, k)" by (cases fr)
    note at = Check[unfolded fr]
    show ?thesis
    proof (cases "p = nullptr")
      case True
      with step at have "ts' = goto t (after k (Inl (C10_Error (not_available f)))) ts" by simp
      then show ?thesis
        using silent_move[OF inv at, of "after k (Inl (C10_Error (not_available f)))"] by simp
    next
      case False
      with step at have ts': "ts' = goto t (after k (Inr (native rt p args)))
          (ts\<lparr>shared := emit (Call p args) (shared ts)\<rparr>)" by simp
      show ?thesis
        unfolding ts' by (intro silent_goto[OF inv at]) (simp_all add: emit_def resolves_def)
    qed
  next
    case (Direct p args k)
    with step have ts': "ts' = goto t (after k (Inr (native rt p args)))
        (ts\<lparr>shared := emit (Call p args) (shared ts)\<rparr>)" by simp
    show ?thesis
      unfolding ts' by (intro silent_goto[OF inv Direct]) (simp_all add: emit_def resolves_def)
  next
    case (ProbeLock f v)
    with step have free: "\<not> driver_api_mutex (shared ts)"
      and ts': "ts' = goto t (ProbeFind f v) (acquire t ts)"
      by (auto split: if_splits)
    show ?thesis
      unfolding ts' by (intro lock_step[OF inv ProbeLock free]) simp_all
  next
    case (ProbeFind f v)
    show ?thesis
    proof (cases "loaded_apis (shared ts) f")
      case None
      with step ProbeFind have "ts' = goto t (ProbeResolve f v) ts" by simp
      then show ?thesis
        using silent_move[OF inv ProbeFind, of "ProbeResolve f v"] None by auto
    next
      case (Some p)
      with step ProbeFind have "ts' = goto t (ProbeUnlock (p \<noteq> nullptr)) ts" by simp
      then show ?thesis
        using silent_move[OF inv ProbeFind, of "ProbeUnlock (p \<noteq> nullptr)"] by simp
    qed
  next
    case (ProbeResolve f v)
    obtain p ws where h: "\<forall>st. getDriverEntryPoint rt f v st =
        (Returns p, st\<lparr>trace := trace st @ Resolve f v # map Warn ws\<rparr>)"
      by (rule getDriverEntryPoint_result)
    with step ProbeResolve have ts': "ts' = goto t (ProbeStore f v p)
        (ts\<lparr>shared := (shared ts)\<lparr>trace := trace (shared ts) @ Resolve f v # map Warn ws\<rparr>\<rparr>)"
      by simp
    show ?thesis
    proof (cases "f = s")
      case True
      with inv ProbeResolve show ?thesis
        unfolding ts' by (simp add: probe_resolve_step)
    next
      case False
      then show ?thesis
        unfolding ts' by (intro silent_goto[OF inv ProbeResolve]) (simp_all add: resolves_def)
    qed
  next
    case (ProbeStore f v p)
    with step have ts': "ts' = goto t (ProbeUnlock (p \<noteq> nullptr))
        (ts\<lparr>shared := emit (TablePut f p)
             ((shared ts)\<lparr>loaded_apis := (loaded_apis (shared ts))(f \<mapsto> p)\<rparr>)\<rparr>)"
      by simp
    show ?thesis
    proof (cases "f = s")
      case True
      with inv ProbeStore show ?thesis
        unfolding ts' by (simp add: probe_store_step)
    next
      case False
      then show ?thesis
        unfolding ts' by (intro silent_goto[OF inv ProbeStore]) (simp_all add: emit_def resolves_def)
    qed
  next
    case (ProbeUnlock b)
    with step have ts': "ts' = goto t Ready (release ts)" by simp
    show ?thesis
      unfolding ts' by (intro unlock_step[OF inv ProbeUnlock]) simp_all
  next
    case InitLock
    with step have free: "\<not> driver_api_mutex (shared ts)"
      and ts': "ts' = goto t InitCuInit (acquire t ts)"
      by (auto split: if_splits)
    show ?thesis
      unfolding ts' by (intro lock_step[OF inv InitLock free]) simp_all
  next
    case InitCuInit
    with step have "ts' = goto t (dispatch ts ''cuInit'' [0] CuInit) ts" by simp
    then show ?thesis
      using silent_move[OF inv InitCuInit, of "dispatch ts ''cuInit'' [0] CuInit"] by simp
  next
    case (InitErrorString result)
    with step have "ts' = goto t (dispatch ts ''cuGetErrorString'' [result] CuGetErrorString) ts"
      by simp
    then show ?thesis
      using silent_move[OF inv InitErrorString,
          of "dispatch ts ''cuGetErrorString'' [result] CuGetErrorString"] by simp
  next
    case (InitWarn msg)
    with step have ts': "ts' = goto t InitUnlock (ts\<lparr>shared := TORCH_WARN msg (shared ts)\<rparr>)"
      by simp
    show ?thesis
      unfolding ts'
      by (intro silent_goto[OF inv InitWarn]) (simp_all add: TORCH_WARN_def emit_def resolves_def)
  next
    case InitUnlock
    with step have ts': "ts' = goto t Ready (release ts)" by simp
    show ?thesis
      unfolding ts' by (intro unlock_step[OF inv InitUnlock]) simp_all
  next
    case VersionRead
    with step have "ts' = goto t Ready ts \<or> ts' = goto t VersionCall ts"
      by (auto split: if_splits)
    then show ?thesis
      using silent_move[OF inv VersionRead, of Ready] silent_move[OF inv VersionRead, of VersionCall]
      by auto
  next
    case VersionCall
    show ?thesis
    proof (cases "cudaDriverGetVersion rt")
      case (Inl what)
      with step VersionCall have ts': "ts' = goto t Ready
          (ts\<lparr>shared := TORCH_WARN (''Failed to get CUDA driver version: '' @ what)
               (emit VersionQuery (shared ts))\<rparr>)"
        by simp
      show ?thesis
        unfolding ts'
        by (intro silent_goto[OF inv VersionCall]) (simp_all add: TORCH_WARN_def emit_def resolves_def)
    next
      case (Inr version)
      with step VersionCall have ts': "ts' = goto t (VersionWrite version)
          (ts\<lparr>shared := emit VersionQuery (shared ts)\<rparr>)"
        by simp
      show ?thesis
        unfolding ts'
        by (intro silent_goto[OF inv VersionCall]) (simp_all add: emit_def resolves_def)
    qed
  next
    case (VersionWrite version)
    with step have ts': "ts' = goto t Ready
        (ts\<lparr>shared := emit (VersionPut version) ((shared ts)\<lparr>cached_driver_version := version\<rparr>)\<rparr>)"
      by simp
    show ?thesis
      unfolding ts'
      by (intro silent_goto[OF inv VersionWrite]) (simp_all add: emit_def resolves_def)
  }
qed

lemma tstep_inv: "thread_inv s ts \<Longrightarrow> thread_inv s (tstep rt t ts)"
  by (cases "thread_step rt t (pc ts t) ts") (simp_all add: tstep_def thread_step_inv)

lemma exec_inv: "thread_inv s ts \<Longrightarrow> thread_inv s (exec rt sched ts)"
  by (induction sched arbitrary: ts) (simp_all add: tstep_inv)

lemma thread_step_settled:
  assumes inv: "thread_inv s ts" and tab: "loaded_apis (shared ts) s = Some p"
    and step: "thread_step rt t (pc ts t) ts = Some ts'"
  shows "loaded_apis (shared ts') s = Some p \<and> resolves s (shared ts') = resolves s (shared ts)"
proof -
  have absent: "\<not> awaits_absent s (pc ts t)"
    using thread_invD(6)[OF inv, of t] tab by auto
  show ?thesis
  proof (cases "pc ts t")
    case (LoadResolve fr)
    obtain f v args k where fr: "fr = (f, v, args, k)" by (cases fr)
    obtain r ws where h: "\<forall>st. getDriverEntryPoint rt f v st =
        (Returns r, st\<lparr>trace := trace st @ Resolve f v # map Warn ws\<rparr>)"
      by (rule getDriverEntryPoint_result)
    with step LoadResolve fr absent tab show ?thesis
      by (auto simp: goto_def resolves_def)
  next
    case (ProbeResolve f v)
    obtain r ws where h: "\<forall>st. getDriverEntryPoint rt f v st =
        (Returns r, st\<lparr>trace := trace st @ Resolve f v # map Warn ws\<rparr>)"
      by (rule getDriverEntryPoint_result)
    with step ProbeResolve absent tab show ?thesis
      by (auto simp: goto_def resolves_def)
  next
    case (LoadStore fr q)
    obtain f v args k where fr: "fr = (f, v, args, k)" by (cases fr)
    with step LoadStore absent tab show ?thesis
      by (auto simp: goto_def resolves_def emit_def split: if_splits)
  next
    case (ProbeStore f v q)
    with step absent tab show ?thesis
      by (auto simp: goto_def resolves_def emit_def)
  next
    case Ready
    with step tab show ?thesis
      by (auto simp: goto_def split: list.splits)
  next
    case (Enter fr)
    obtain f v args k where fr: "fr = (f, v, args, k)" by (cases fr)
    with step Enter tab show ?thesis
      by (auto simp: goto_def split: option.splits)
  next
    case (LoadLock fr)
    with step tab show ?thesis
      by (auto simp: goto_def acquire_def emit_def resolves_def split: if_splits)
  next
    case (LoadFind fr)
    obtain f v args k where fr: "fr = (f, v, args, k)" by (cases fr)
    with step LoadFind tab show ?thesis
      by (auto simp: goto_def split: option.splits)
  next
    case (LoadUnlock fr q)
    with step tab show ?thesis
      by (auto simp: goto_def release_def emit_def resolves_def)
  next
    case (Publish fr q)
    obtain f v args k where fr: "fr = (f, v, args, k)" by (cases fr)
    with step Publish tab show ?thesis
      by (auto simp: goto_def resolves_def)
  next
    case (Check fr q)
    obtain f v args k where fr: "fr = (f, v, args, k)" by (cases fr)
    with step Check tab show ?thesis
      by (auto simp: goto_def emit_def resolves_def split: if_splits)
  next
    case (VersionCall)
    with step tab show ?thesis
      by (auto simp: goto_def emit_def resolves_def TORCH_WARN_def split: sum.splits)
  qed (use step tab in \<open>auto simp: goto_def acquire_def release_def emit_def resolves_def
        TORCH_WARN_def split: option.splits if_splits\<close>)
qed

lemma exec_settled:
  assumes "thread_inv s ts" and "loaded_apis (shared ts) s = Some p"
  shows "loaded_apis (shared (exec rt sched ts)) s = Some p \<and>
    resolves s (shared (exec rt sched ts)) = resolves s (shared ts)"
  using assms
proof (induction sched arbitrary: ts)
  case Nil
  then show ?case by simp
next
  case (Cons t sched)
  have "loaded_apis (shared (tstep rt t ts)) s = Some p \<and>
      resolves s (shared (tstep rt t ts)) = resolves s (shared ts)"
    using thread_step_settled[OF Cons.prems, of rt t] Cons.prems(2)
    by (cases "thread_step rt t (pc ts t) ts") (simp_all add: tstep_def)
  with Cons.IH[of "tstep rt t ts"] Cons.prems(1) show ?case
    by (simp add: tstep_inv)
qed

section \<open>The claims\<close>

text \<open>
  C1, as stated, fails. The claim: for every symbol \<open>S\<close>, over any sequence of calls of
  its wrapper and of availability probes for it, serially or from several threads, the
  Resolver is invoked for \<open>S\<close> at most once, and all of them adopt the same pointer.
  With a runtime that rejects \<^verbatim>\<open>cuStreamCreate\<close> at version 11000, the first call of
  the wrapper resolves to null and stores nothing, so the probe that follows resolves
  again: two invocations, and the probe's pointer is not the wrapper's. This happens in
  the serial run and in a run of two threads, the probe waiting for the mutex while the
  wrapper resolves.
\<close>

theorem resolver_invoked_twice:
  "resolves ''cuStreamCreate''
     (run stub [Invoke ''cuStreamCreate'' [], IsAvailable ''cuStreamCreate'' 12000]
        (initial_state 12080)) = 2 \<and>
   entry_point
     (run stub [Invoke ''cuStreamCreate'' [], IsAvailable ''cuStreamCreate'' 12000]
        (initial_state 12080)) ''cuStreamCreate'' = Some nullptr \<and>
   loaded_apis
     (run stub [Invoke ''cuStreamCreate'' [], IsAvailable ''cuStreamCreate'' 12000]
        (initial_state 12080)) ''cuStreamCreate'' = Some 7 \<and>
   resolves ''cuStreamCreate''
     (shared (exec stub [0, 1, 0, 0, 1, 0, 0, 0, 0, 1, 0, 1, 1, 0, 1, 1]
        (initial_threads 12080
           (two_threads [Invoke ''cuStreamCreate'' []] [IsAvailable ''cuStreamCreate'' 12000])))) = 2 \<and>
   entry_point
     (shared (exec stub [0, 1, 0, 0, 1, 0, 0, 0, 0, 1, 0, 1, 1, 0, 1, 1]
        (initial_threads 12080
           (two_threads [Invoke ''cuStreamCreate'' []] [IsAvailable ''cuStreamCreate'' 12000])))) ''cuStreamCreate'' = Some nullptr \<and>
   loaded_apis
     (shared (exec stub [0, 1, 0, 0, 1, 0, 0, 0, 0, 1, 0, 1, 1, 0, 1, 1]
        (initial_threads 12080
           (two_threads [Invoke ''cuStreamCreate'' []] [IsAvailable ''cuStreamCreate'' 12000])))) ''cuStreamCreate'' = Some 7"
  by (simp add: model_defs thread_defs)

text \<open>
  C1, amended. For every symbol \<open>S\<close>, over any programs of calls of wrappers, probes
  and the other two operations, carried out serially or by several threads interleaved
  at every access to the shared state, at every moment: the Resolver has been invoked
  for \<open>S\<close> at most twice; at most once when the static of the loader of \<open>S\<close> holds
  a non-null pointer, which then is the map's pointer for \<open>S\<close>; at most once when
  nobody holds the mutex and nobody initializes that static, unless the static holds
  null while the map has an entry for \<open>S\<close>; and once the map has an entry for
  \<open>S\<close>, no later step invokes the Resolver for \<open>S\<close>.
\<close>

theorem resolver_invocations_bounded:
  assumes "ts = exec rt sched (initial_threads (CUDA_VERSION rt) programs)"
  shows "resolves S (shared ts) \<le> 2 \<and>
    (\<forall>p. entry_point (shared ts) S = Some p \<and> p \<noteq> nullptr \<longrightarrow>
       loaded_apis (shared ts) S = Some p \<and> resolves S (shared ts) \<le> 1) \<and>
    (\<not> driver_api_mutex (shared ts) \<and> initializing ts S = None \<and>
     (loaded_apis (shared ts) S = None \<or> entry_point (shared ts) S \<noteq> Some nullptr) \<longrightarrow>
       resolves S (shared ts) \<le> 1) \<and>
    (loaded_apis (shared ts) S \<noteq> None \<longrightarrow>
       resolves S (shared (exec rt later ts)) = resolves S (shared ts))"
proof -
  have inv: "thread_inv S ts"
    unfolding assms by (rule exec_inv) (rule initial_thread_inv)
  note D = thread_invD[OF inv]
  have "thread_bound S ts \<le> 2"
    by (simp add: thread_bound_def)
  with D(7) have two: "resolves S (shared ts) \<le> 2" by simp
  have adopted: "loaded_apis (shared ts) S = Some p \<and> resolves S (shared ts) \<le> 1"
    if "entry_point (shared ts) S = Some p" "p \<noteq> nullptr" for p
  proof -
    from that(1) have sp: "slot_pointer S ts = Some p"
      by (simp add: slot_pointer_def)
    from that(1) D(5) have "initializing ts S = None" by simp
    with D(8)[OF sp that(2)] have tab: "loaded_apis (shared ts) S = Some p" by simp
    with sp that(2) have "thread_bound S ts = 1"
      by (simp add: thread_bound_def in_table_def)
    with D(7) tab show ?thesis by simp
  qed
  have quiescent: "resolves S (shared ts) \<le> 1"
    if "\<not> driver_api_mutex (shared ts)" "initializing ts S = None"
      "loaded_apis (shared ts) S = None \<or> entry_point (shared ts) S \<noteq> Some nullptr"
  proof -
    from that(1) D(2) have "holder ts = None" by simp
    then have "in_table S ts \<longleftrightarrow> loaded_apis (shared ts) S \<noteq> None"
      by (simp add: in_table_def)
    moreover from that(2) have "slot_pointer S ts = entry_point (shared ts) S"
      by (simp add: slot_pointer_def split: option.splits)
    ultimately have "thread_bound S ts \<le> 1"
      using that(3) by (auto simp: thread_bound_def)
    with D(7) show ?thesis by simp
  qed
  have settled: "resolves S (shared (exec rt later ts)) = resolves S (shared ts)"
    if "loaded_apis (shared ts) S \<noteq> None"
    using that exec_settled[OF inv] by auto
  from two adopted quiescent settled show ?thesis by blast
qed

theorem resolver_invocations_bounded_witness:
  "entry_point (shared
     (exec stub [1, 0, 0, 1, 1, 0, 1, 1, 0, 1, 0, 0, 0, 0, 0, 0]
        (initial_threads (CUDA_VERSION stub)
           (two_threads [Invoke ''cuInit'' [0]]
              [IsAvailable ''cuInit'' 12000, IsAvailable ''cuInit'' 11000])))) ''cuInit'' = Some 7 \<and>
   loaded_apis (shared
     (exec stub [1, 0, 0, 1, 1, 0, 1, 1, 0, 1, 0, 0, 0, 0, 0, 0]
        (initial_threads (CUDA_VERSION stub)
           (two_threads [Invoke ''cuInit'' [0]]
              [IsAvailable ''cuInit'' 12000, IsAvailable ''cuInit'' 11000])))) ''cuInit'' = Some 7 \<and>
   \<not> driver_api_mutex (shared
     (exec stub [1, 0, 0, 1, 1, 0, 1, 1, 0, 1, 0, 0, 0, 0, 0, 0]
        (initial_threads (CUDA_VERSION stub)
           (two_threads [Invoke ''cuInit'' [0]]
              [IsAvailable ''cuInit'' 12000, IsAvailable ''cuInit'' 11000])))) \<and>
   initializing
     (exec stub [1, 0, 0, 1, 1, 0, 1, 1, 0, 1, 0, 0, 0, 0, 0, 0]
        (initial_threads (CUDA_VERSION stub)
           (two_threads [Invoke ''cuInit'' [0]]
              [IsAvailable ''cuInit'' 12000, IsAvailable ''cuInit'' 11000]))) ''cuInit'' = None \<and>
   resolves ''cuInit'' (shared
     (exec stub [1, 0, 0, 1, 1, 0, 1, 1, 0, 1, 0, 0, 0, 0, 0, 0]
        (initial_threads (CUDA_VERSION stub)
           (two_threads [Invoke ''cuInit'' [0]]
              [IsAvailable ''cuInit'' 12000, IsAvailable ''cuInit'' 11000])))) \<le> 1 \<and>
   resolves ''cuInit'' (shared (exec stub [1, 1, 1, 1, 1]
     (exec stub [1, 0, 0, 1, 1, 0, 1, 1, 0, 1, 0, 0, 0, 0, 0, 0]
        (initial_threads (CUDA_VERSION stub)
           (two_threads [Invoke ''cuInit'' [0]]
              [IsAvailable ''cuInit'' 12000, IsAvailable ''cuInit'' 11000]))))) =
   resolves ''cuInit'' (shared
     (exec stub [1, 0, 0, 1, 1, 0, 1, 1, 0, 1, 0, 0, 0, 0, 0, 0]
        (initial_threads (CUDA_VERSION stub)
           (two_threads [Invoke ''cuInit'' [0]]
              [IsAvailable ''cuInit'' 12000, IsAvailable ''cuInit'' 11000]))))"
proof -
  let ?ts = "exec stub [1, 0, 0, 1, 1, 0, 1, 1, 0, 1, 0, 0, 0, 0, 0, 0]
        (initial_threads (CUDA_VERSION stub)
           (two_threads [Invoke ''cuInit'' [0]]
              [IsAvailable ''cuInit'' 12000, IsAvailable ''cuInit'' 11000]))"
  have adopted: "entry_point (shared ?ts) ''cuInit'' = Some 7"
    and quiet: "\<not> driver_api_mutex (shared ?ts)" "initializing ?ts ''cuInit'' = None"
    by (simp_all add: model_defs thread_defs)
  from resolver_invocations_bounded [OF refl, of "''cuInit''" stub
      "[1, 0, 0, 1, 1, 0, 1, 1, 0, 1, 0, 0, 0, 0, 0, 0]"
      "two_threads [Invoke ''cuInit'' [0]] [IsAvailable ''cuInit'' 12000, IsAvailable ''cuInit'' 11000]" "[1, 1, 1, 1, 1]"]
    adopted quiet
  show ?thesis by simp
qed

text \<open>
  C2. For every symbol \<open>S\<close> whose adopted pointer is null (the loader's static holds
  null once the call is over), the call of the wrapper raises an error that names
  \<open>S\<close> and points at the driver version, and so does every later call, after any
  run in between, leaving the state as it was: no default value is ever returned.
\<close>

theorem null_entry_point_raises:
  assumes "st1 = snd (lazilyLoadAndInvoke rt S version args st)"
    and "entry_point st1 S = Some nullptr"
    and "st2 = run rt ops st1"
  shows "fst (lazilyLoadAndInvoke rt S version args st) =
      Raises (C10_Error
        (''CUDA driver API '' @ quote @ S @ quote @ '' is not available. '' @
         ''This may indicate an incompatible CUDA driver version.'')) \<and>
    lazilyLoadAndInvoke rt S version args' st2 =
      (Raises (C10_Error
        (''CUDA driver API '' @ quote @ S @ quote @ '' is not available. '' @
         ''This may indicate an incompatible CUDA driver version.'')), st2)"
proof -
  obtain r ws where h: "\<forall>st. getDriverEntryPoint rt S version st =
      (Returns r, st\<lparr>trace := trace st @ Resolve S version # map Warn ws\<rparr>)"
    by (rule getDriverEntryPoint_result)
  have first: "fst (lazilyLoadAndInvoke rt S version args st) = Raises (C10_Error (not_available S))"
    using assms(2) unfolding assms(1)
    by (auto simp: lazilyLoadAndInvoke_eq[OF h] split: option.splits if_splits)
  have "entry_point st2 S = Some nullptr"
    unfolding assms(3) using assms(2) by (rule run_entry)
  then have "lazilyLoadAndInvoke rt S version args' st2 = (Raises (C10_Error (not_available S)), st2)"
    by (simp add: lazilyLoadAndInvoke_eq[OF h])
  with first show ?thesis
    by (simp add: not_available_def)
qed

theorem null_entry_point_raises_witness:
  "entry_point (snd (lazilyLoadAndInvoke stub ''cuStreamCreate'' 11000 [] (initial_state 12080)))
     ''cuStreamCreate'' = Some nullptr \<and>
   fst (lazilyLoadAndInvoke stub ''cuStreamCreate'' 11000 [] (initial_state 12080)) =
     Raises (C10_Error
        (''CUDA driver API '' @ quote @ ''cuStreamCreate'' @ quote @ '' is not available. '' @
         ''This may indicate an incompatible CUDA driver version.'')) \<and>
   fst (lazilyLoadAndInvoke stub ''cuStreamCreate'' 11000 [1]
     (run stub [IsAvailable ''cuStreamCreate'' 12000, Invoke ''cuStreamCreate'' []]
        (snd (lazilyLoadAndInvoke stub ''cuStreamCreate'' 11000 [] (initial_state 12080))))) =
     Raises (C10_Error
        (''CUDA driver API '' @ quote @ ''cuStreamCreate'' @ quote @ '' is not available. '' @
         ''This may indicate an incompatible CUDA driver version.''))"
proof -
  have e: "entry_point (snd (lazilyLoadAndInvoke stub ''cuStreamCreate'' 11000 [] (initial_state 12080)))
     ''cuStreamCreate'' = Some nullptr"
    by (simp add: model_defs)
  from null_entry_point_raises [OF refl e refl,
      of "[1]" "[IsAvailable ''cuStreamCreate'' 12000, Invoke ''cuStreamCreate'' []]"] e
  show ?thesis by simp
qed




text \<open>
  C4. \<^verbatim>\<open>isDriverAPIAvailable(name, minVersion)\<close>, called with the mutex free: when
  \<open>name\<close> is in the map it returns whether the cached pointer is non-null, without
  a resolution and without a change to the map; otherwise it performs one resolution,
  stores the outcome \<open>p\<close> (null too) and returns whether \<open>p\<close> is non-null. For an
  unresolvable name it returns false, raises nothing, and leaves a null entry.
\<close>

theorem isDriverAPIAvailable_cached_or_resolved:
  assumes "\<not> driver_api_mutex st"
    and "fst (getDriverEntryPoint rt name minVersion st) = Returns p"
    and "st' = snd (isDriverAPIAvailable rt name minVersion st)"
  shows "(\<forall>q. loaded_apis st name = Some q \<longrightarrow>
       fst (isDriverAPIAvailable rt name minVersion st) = Returns (q \<noteq> nullptr) \<and>
       loaded_apis st' = loaded_apis st \<and> resolves name st' = resolves name st) \<and>
    (loaded_apis st name = None \<longrightarrow>
       fst (isDriverAPIAvailable rt name minVersion st) = Returns (p \<noteq> nullptr) \<and>
       loaded_apis st' = (loaded_apis st)(name \<mapsto> p) \<and> resolves name st' = resolves name st + 1) \<and>
    (loaded_apis st name = None \<and> p = nullptr \<longrightarrow>
       fst (isDriverAPIAvailable rt name minVersion st) = Returns False \<and>
       loaded_apis st' name = Some nullptr)"
proof -
  obtain r ws where h: "\<forall>st. getDriverEntryPoint rt name minVersion st =
      (Returns r, st\<lparr>trace := trace st @ Resolve name minVersion # map Warn ws\<rparr>)"
    by (rule getDriverEntryPoint_result)
  with assms(2) have "r = p" by simp
  with assms(1) show ?thesis
    unfolding assms(3) by (auto simp: isDriverAPIAvailable_eq[OF h] resolves_def)
qed

theorem isDriverAPIAvailable_cached_or_resolved_witness:
  "fst (isDriverAPIAvailable stub ''cuStreamCreate'' 11000 (initial_state 12080)) = Returns False \<and>
   loaded_apis (snd (isDriverAPIAvailable stub ''cuStreamCreate'' 11000 (initial_state 12080)))
     ''cuStreamCreate'' = Some nullptr \<and>
   fst (isDriverAPIAvailable stub ''cuStreamCreate'' 12000
     (snd (isDriverAPIAvailable stub ''cuStreamCreate'' 11000 (initial_state 12080)))) = Returns False \<and>
   resolves ''cuStreamCreate'' (snd (isDriverAPIAvailable stub ''cuStreamCreate'' 12000
     (snd (isDriverAPIAvailable stub ''cuStreamCreate'' 11000 (initial_state 12080))))) = 1"
proof -
  let ?st1 = "snd (isDriverAPIAvailable stub ''cuStreamCreate'' 11000 (initial_state 12080))"
  have free: "\<not> driver_api_mutex (initial_state 12080)"
    and absent: "loaded_apis (initial_state 12080) ''cuStreamCreate'' = None"
    by (simp_all add: initial_state_def)
  have null: "fst (getDriverEntryPoint stub ''cuStreamCreate'' 11000 (initial_state 12080)) = Returns nullptr"
    by (simp add: model_defs)
  have free1: "\<not> driver_api_mutex ?st1"
    and cached: "loaded_apis ?st1 ''cuStreamCreate'' = Some nullptr"
    and once: "resolves ''cuStreamCreate'' ?st1 = 1"
    by (simp_all add: model_defs)
  have found: "fst (getDriverEntryPoint stub ''cuStreamCreate'' 12000 ?st1) = Returns 7"
    by (simp add: model_defs)
  from isDriverAPIAvailable_cached_or_resolved [OF free null refl]
    isDriverAPIAvailable_cached_or_resolved [OF free1 found refl] absent cached once
  show ?thesis by simp
qed

text \<open>
  C5, as stated, fails. The claim: on any failure the Resolver returns null and records
  a warning. The warning is written in the \<^verbatim>\<open>catch\<close> only: when the runtime reports
  an absent symbol with \<^verbatim>\<open>cudaSuccess\<close> and a null pointer, the Resolver returns null,
  the trace has no warning, and the call of the wrapper raises all the same.
\<close>

theorem null_without_warning:
  "getDriverEntryPoint quiet_stub ''cuStreamCreate'' 11000 (initial_state 12080) =
     (Returns nullptr, emit (Resolve ''cuStreamCreate'' 11000) (initial_state 12080)) \<and>
   trace (snd (getDriverEntryPoint quiet_stub ''cuStreamCreate'' 11000 (initial_state 12080))) =
     [Resolve ''cuStreamCreate'' 11000] \<and>
   fst (lazilyLoadAndInvoke quiet_stub ''cuStreamCreate'' 11000 [] (initial_state 12080)) =
     Raises (C10_Error (not_available ''cuStreamCreate''))"
  by (simp add: model_defs quiet_stub_def)

text \<open>
  C5, amended. For every symbol and version \<^verbatim>\<open>getDriverEntryPoint\<close> returns and raises
  nothing. When the runtime's lookup reports a status other than \<^verbatim>\<open>cudaSuccess\<close>, it
  yields null and records one warning that names the symbol and carries the error text;
  when the lookup reports \<^verbatim>\<open>cudaSuccess\<close>, it yields the pointer the runtime wrote,
  null included, and records no warning. A null result becomes an error only where the
  wrapper is called: the probe on the same state returns false, the call of the wrapper
  raises.
\<close>

theorem getDriverEntryPoint_soft_failure:
  "(\<exists>p. fst (getDriverEntryPoint rt symbol version st) = Returns p) \<and>
   ((if 12050 \<le> CUDA_VERSION rt then cudaGetDriverEntryPointByVersion rt symbol version
     else cudaGetDriverEntryPoint rt symbol) = Inl e \<longrightarrow>
      getDriverEntryPoint rt symbol version st =
        (Returns nullptr,
         emit (Warn (''Failed to load CUDA driver API '' @ quote @ symbol @ quote @ '': '' @ e))
           (emit (Resolve symbol version) st))) \<and>
   ((if 12050 \<le> CUDA_VERSION rt then cudaGetDriverEntryPointByVersion rt symbol version
     else cudaGetDriverEntryPoint rt symbol) = Inr p \<longrightarrow>
      getDriverEntryPoint rt symbol version st = (Returns p, emit (Resolve symbol version) st)) \<and>
   (fst (getDriverEntryPoint rt symbol version st) = Returns nullptr \<and>
    \<not> driver_api_mutex st \<and> loaded_apis st symbol = None \<longrightarrow>
      fst (isDriverAPIAvailable rt symbol version st) = Returns False \<and>
      (entry_point st symbol = None \<longrightarrow>
         fst (lazilyLoadAndInvoke rt symbol version args st) =
           Raises (C10_Error (not_available symbol))))"
proof -
  obtain r ws where h: "\<forall>st. getDriverEntryPoint rt symbol version st =
      (Returns r, st\<lparr>trace := trace st @ Resolve symbol version # map Warn ws\<rparr>)"
    by (rule getDriverEntryPoint_result)
  then have returns: "\<exists>p. fst (getDriverEntryPoint rt symbol version st) = Returns p"
    by simp
  have failure: "getDriverEntryPoint rt symbol version st =
        (Returns nullptr,
         emit (Warn (''Failed to load CUDA driver API '' @ quote @ symbol @ quote @ '': '' @ e))
           (emit (Resolve symbol version) st))"
    if "(if 12050 \<le> CUDA_VERSION rt then cudaGetDriverEntryPointByVersion rt symbol version
     else cudaGetDriverEntryPoint rt symbol) = Inl e"
    using that by (simp add: getDriverEntryPoint_def try_catch_def C10_CUDA_CHECK_def TORCH_WARN_def)
  have success: "getDriverEntryPoint rt symbol version st = (Returns p, emit (Resolve symbol version) st)"
    if "(if 12050 \<le> CUDA_VERSION rt then cudaGetDriverEntryPointByVersion rt symbol version
     else cudaGetDriverEntryPoint rt symbol) = Inr p"
    using that by (simp add: getDriverEntryPoint_def try_catch_def C10_CUDA_CHECK_def)
  have use: "fst (isDriverAPIAvailable rt symbol version st) = Returns False \<and>
         (entry_point st symbol = None \<longrightarrow>
            fst (lazilyLoadAndInvoke rt symbol version args st) =
              Raises (C10_Error (not_available symbol)))"
    if "fst (getDriverEntryPoint rt symbol version st) = Returns nullptr"
      and "\<not> driver_api_mutex st" and "loaded_apis st symbol = None"
  proof -
    from that(1) h have "r = nullptr" by simp
    with that(2,3) show ?thesis
      by (simp add: isDriverAPIAvailable_eq[OF h] lazilyLoadAndInvoke_eq[OF h])
  qed
  from returns failure success use show ?thesis by blast
qed

theorem getDriverEntryPoint_soft_failure_witness:
  "getDriverEntryPoint stub ''cuStreamCreate'' 11000 (initial_state 12080) =
     (Returns nullptr,
      emit (Warn (''Failed to load CUDA driver API '' @ quote @ ''cuStreamCreate'' @ quote @ '': '' @
                  ''symbol not found''))
        (emit (Resolve ''cuStreamCreate'' 11000) (initial_state 12080))) \<and>
   getDriverEntryPoint stub ''cuInit'' 11000 (initial_state 12080) =
     (Returns 7, emit (Resolve ''cuInit'' 11000) (initial_state 12080)) \<and>
   fst (isDriverAPIAvailable stub ''cuStreamCreate'' 11000 (initial_state 12080)) = Returns False \<and>
   fst (lazilyLoadAndInvoke stub ''cuStreamCreate'' 11000 [] (initial_state 12080)) =
     Raises (C10_Error (not_available ''cuStreamCreate''))"
proof -
  have fails: "(if 12050 \<le> CUDA_VERSION stub
      then cudaGetDriverEntryPointByVersion stub ''cuStreamCreate'' 11000
      else cudaGetDriverEntryPoint stub ''cuStreamCreate'') = Inl ''symbol not found''"
    and succeeds: "(if 12050 \<le> CUDA_VERSION stub
      then cudaGetDriverEntryPointByVersion stub ''cuInit'' 11000
      else cudaGetDriverEntryPoint stub ''cuInit'') = Inr 7"
    by (simp_all add: stub_def)
  have start: "\<not> driver_api_mutex (initial_state 12080)"
    "loaded_apis (initial_state 12080) ''cuStreamCreate'' = None"
    "entry_point (initial_state 12080) ''cuStreamCreate'' = None"
    by (simp_all add: initial_state_def)
  have null: "fst (getDriverEntryPoint stub ''cuStreamCreate'' 11000 (initial_state 12080)) =
      Returns nullptr"
    by (simp add: model_defs)
  from getDriverEntryPoint_soft_failure
      [of stub "''cuStreamCreate''" 11000 "initial_state 12080" "''symbol not found''" 7 "[]"]
    getDriverEntryPoint_soft_failure
      [of stub "''cuInit''" 11000 "initial_state 12080" "''symbol not found''" 7 "[]"]
    fails succeeds start null
  show ?thesis by simp
qed

text \<open>
  C6. \<^verbatim>\<open>getDriverVersion()\<close> returns the memoized version and leaves the state,
  trace included, as it was whenever the memoized value is at least 0. Otherwise it
  queries the runtime once; on success it memoizes the value and returns it; on failure
  it returns -1, leaves the memoized value unchanged, and the next call, whatever the
  runtime then answers, queries again.
\<close>

theorem getDriverVersion_memoized:
  assumes "st' = snd (getDriverVersion rt st)"
  shows "(0 \<le> cached_driver_version st \<longrightarrow>
       getDriverVersion rt st = (Returns (cached_driver_version st), st)) \<and>
    (\<forall>version. cached_driver_version st < 0 \<and> cudaDriverGetVersion rt = Inr version \<longrightarrow>
       fst (getDriverVersion rt st) = Returns version \<and>
       cached_driver_version st' = version \<and>
       trace st' = trace st @ [VersionQuery, VersionPut version]) \<and>
    (\<forall>e. cached_driver_version st < 0 \<and> cudaDriverGetVersion rt = Inl e \<longrightarrow>
       fst (getDriverVersion rt st) = Returns (- 1) \<and>
       cached_driver_version st' = cached_driver_version st \<and>
       trace st' = trace st @ [VersionQuery, Warn (''Failed to get CUDA driver version: '' @ e)] \<and>
       (\<exists>es. trace (snd (getDriverVersion rt' st')) = trace st' @ VersionQuery # es))"
proof (intro conjI allI impI)
  assume "0 \<le> cached_driver_version st"
  then show "getDriverVersion rt st = (Returns (cached_driver_version st), st)"
    by (simp add: getDriverVersion_def)
next
  fix version
  assume a: "cached_driver_version st < 0 \<and> cudaDriverGetVersion rt = Inr version"
  then have "getDriverVersion rt st =
      (Returns version,
       st\<lparr>cached_driver_version := version, trace := trace st @ [VersionQuery, VersionPut version]\<rparr>)"
    by (simp add: getDriverVersion_def try_catch_def bind_def C10_CUDA_CHECK_def emit_def)
  then show "fst (getDriverVersion rt st) = Returns version"
    and "cached_driver_version st' = version"
    and "trace st' = trace st @ [VersionQuery, VersionPut version]"
    by (simp_all add: assms)
next
  fix e
  assume a: "cached_driver_version st < 0 \<and> cudaDriverGetVersion rt = Inl e"
  then have eq: "getDriverVersion rt st =
      (Returns (- 1),
       st\<lparr>trace := trace st @ [VersionQuery, Warn (''Failed to get CUDA driver version: '' @ e)]\<rparr>)"
    by (simp add: getDriverVersion_def try_catch_def bind_def C10_CUDA_CHECK_def TORCH_WARN_def emit_def)
  then show "fst (getDriverVersion rt st) = Returns (- 1)"
    and "cached_driver_version st' = cached_driver_version st"
    and "trace st' = trace st @ [VersionQuery, Warn (''Failed to get CUDA driver version: '' @ e)]"
    by (simp_all add: assms)
  from eq a have "cached_driver_version st' < 0"
    by (simp add: assms)
  then show "\<exists>es. trace (snd (getDriverVersion rt' st')) = trace st' @ VersionQuery # es"
    by (cases "cudaDriverGetVersion rt'")
       (simp_all add: getDriverVersion_def try_catch_def bind_def C10_CUDA_CHECK_def TORCH_WARN_def
          emit_def)
qed

theorem getDriverVersion_memoized_witness:
  "getDriverVersion stub (snd (getDriverVersion stub (initial_state 12080))) =
     (Returns 12080, snd (getDriverVersion stub (initial_state 12080))) \<and>
   fst (getDriverVersion stub (initial_state 12080)) = Returns 12080 \<and>
   trace (snd (getDriverVersion stub (initial_state 12080))) = [VersionQuery, VersionPut 12080] \<and>
   fst (getDriverVersion (stub\<lparr>cudaDriverGetVersion := Inl ''no driver''\<rparr>) (initial_state 12080)) =
     Returns (- 1) \<and>
   cached_driver_version
     (snd (getDriverVersion (stub\<lparr>cudaDriverGetVersion := Inl ''no driver''\<rparr>) (initial_state 12080))) = - 1 \<and>
   trace (snd (getDriverVersion stub
       (snd (getDriverVersion (stub\<lparr>cudaDriverGetVersion := Inl ''no driver''\<rparr>) (initial_state 12080))))) =
     [VersionQuery, Warn ''Failed to get CUDA driver version: no driver'', VersionQuery, VersionPut 12080]"
proof -
  have unset: "cached_driver_version (initial_state 12080) < 0"
    and empty: "trace (initial_state 12080) = []"
    and start: "cached_driver_version (initial_state 12080) = - 1"
    by (simp_all add: initial_state_def)
  have ok: "cudaDriverGetVersion stub = Inr 12080"
    and bad: "cudaDriverGetVersion (stub\<lparr>cudaDriverGetVersion := Inl ''no driver''\<rparr>) = Inl ''no driver''"
    by (simp_all add: stub_def)
  have memo: "0 \<le> cached_driver_version (snd (getDriverVersion stub (initial_state 12080)))"
    by (simp add: model_defs)
  have retry: "trace (snd (getDriverVersion stub
       (snd (getDriverVersion (stub\<lparr>cudaDriverGetVersion := Inl ''no driver''\<rparr>) (initial_state 12080))))) =
     [VersionQuery, Warn ''Failed to get CUDA driver version: no driver'', VersionQuery, VersionPut 12080]"
    by (simp add: model_defs)
  from getDriverVersion_memoized [OF refl, of "snd (getDriverVersion stub (initial_state 12080))" stub stub]
    getDriverVersion_memoized [OF refl, of "initial_state 12080" stub stub]
    getDriverVersion_memoized
      [OF refl, of "initial_state 12080" "stub\<lparr>cudaDriverGetVersion := Inl ''no driver''\<rparr>" stub]
    unset empty start ok bad memo retry
  show ?thesis by simp
qed

text \<open>
  C7. For every symbol name, over all operations that insert into \<open>loaded_apis\<close> (first
  use of a wrapper, availability probes), the map never holds two different pointers for
  that name in one process lifetime: whatever it holds for the name at one moment of a
  run, started in any state, it holds at every later moment. This covers null entries
  as well as the non-null ones the claim speaks of.
\<close>

theorem loaded_apis_pointer_unique:
  assumes "loaded_apis (run rt ops st) name = Some p"
    and "loaded_apis (run rt (ops @ later) st) name = Some q"
  shows "p = q"
proof -
  consider "run rt (ops @ later) st = run rt ops st"
    | "run rt (ops @ later) st = run rt later (run rt ops st)"
    using run_append by blast
  then show ?thesis
  proof cases
    case 1
    with assms show ?thesis by simp
  next
    case 2
    from assms(1) have "loaded_apis (run rt later (run rt ops st)) name = Some p"
      by (rule run_table)
    with 2 assms(2) show ?thesis by simp
  qed
qed

theorem loaded_apis_pointer_unique_witness:
  "loaded_apis (run stub [IsAvailable ''cuInit'' 11000] (initial_state 12080)) ''cuInit'' = Some 7 \<and>
   loaded_apis
     (run stub ([IsAvailable ''cuInit'' 11000] @ [Invoke ''cuInit'' [0], IsAvailable ''cuInit'' 12000])
        (initial_state 12080)) ''cuInit'' = Some 7"
proof -
  have first: "loaded_apis (run stub [IsAvailable ''cuInit'' 11000] (initial_state 12080)) ''cuInit'' = Some 7"
    by (simp add: model_defs)
  obtain q where later: "loaded_apis
     (run stub ([IsAvailable ''cuInit'' 11000] @ [Invoke ''cuInit'' [0], IsAvailable ''cuInit'' 12000])
        (initial_state 12080)) ''cuInit'' = Some q"
    by (simp add: model_defs)
  from loaded_apis_pointer_unique [OF first later] first later show ?thesis
    by simp
qed

text \<open>
  C8. The claim: the public pointer of each wrapper starts at the loader and moves,
  exactly once and for good, to the driver function. The file's own description says
  the same (\<^verbatim>\<open>Replaces the function pointer with the real driver API\<close>), but no
  statement assigns the public pointer. Evaluated on a successful first call of
  \<^verbatim>\<open>cuInit\<close>: the loader's static holds the driver's address 7, the public pointer is
  still the loader, as it was at static initialization.
\<close>

theorem public_pointer_not_replaced:
  "entry_point (run stub [Invoke ''cuInit'' [0]] (initial_state 12080)) ''cuInit'' = Some 7 \<and>
   wrapper (run stub [Invoke ''cuInit'' [0]] (initial_state 12080)) ''cuInit'' =
     LazilyLoadAndInvoke ''cuInit'' 11000 \<and>
   wrapper (initial_state 12080) ''cuInit'' = LazilyLoadAndInvoke ''cuInit'' 11000"
  by (simp add: model_defs)

text \<open>
  C9. The claim: every write of the memoized driver version (and of the map) happens
  while \<^verbatim>\<open>driver_api_mutex\<close> is held. \<^verbatim>\<open>getDriverVersion\<close> takes no lock, unlike
  the loaders, \<^verbatim>\<open>isDriverAPIAvailable\<close> and \<^verbatim>\<open>initializeDriverAPI\<close>. Evaluated on
  the first call with a runtime that reports 12080: the version is written, and the
  trace has the write with no \<open>Lock\<close> before it.
\<close>

theorem getDriverVersion_writes_unlocked:
  "cached_driver_version (initial_state 12080) = - 1 \<and>
   cached_driver_version (snd (getDriverVersion stub (initial_state 12080))) = 12080 \<and>
   trace (snd (getDriverVersion stub (initial_state 12080))) = [VersionQuery, VersionPut 12080] \<and>
   \<not> writes_locked False (trace (snd (getDriverVersion stub (initial_state 12080))))"
  by (simp add: model_defs)

text \<open>
  C10. \<^verbatim>\<open>initializeDriverAPI()\<close> takes \<^verbatim>\<open>driver_api_mutex\<close> and, holding it, calls
  \<^verbatim>\<open>cuInit\<close> and \<^verbatim>\<open>cuGetErrorString\<close> through this file's wrappers. In any state a
  run from static initialization reaches with the mutex free: if the loader of
  \<^verbatim>\<open>cuInit\<close> has not been used yet, the call never returns, the mutex stays held and
  no warning is recorded; and if \<^verbatim>\<open>cuInit\<close> is resolved and reports a failure while
  the loader of \<^verbatim>\<open>cuGetErrorString\<close> has not been used yet, the call never returns
  either.
\<close>

theorem initializeDriverAPI_self_deadlock:
  assumes "st = run rt ops (initial_state (CUDA_VERSION rt))" and "\<not> driver_api_mutex st"
  shows "(entry_point st ''cuInit'' = None \<longrightarrow>
       initializeDriverAPI rt st = (Hangs, emit Lock (st\<lparr>driver_api_mutex := True\<rparr>))) \<and>
    (\<forall>p. entry_point st ''cuInit'' = Some p \<and> p \<noteq> nullptr \<and>
         fst (native rt p [0]) \<noteq> CUDA_SUCCESS \<and> entry_point st ''cuGetErrorString'' = None \<longrightarrow>
       fst (initializeDriverAPI rt st) = Hangs \<and>
       driver_api_mutex (snd (initializeDriverAPI rt st)))"
proof -
  have "wrapper st = wrapper (initial_state (CUDA_VERSION rt))"
    unfolding assms(1) by (rule run_wrapper)
  then have w: "wrapper st f = LazilyLoadAndInvoke f (declared_version (CUDA_VERSION rt) f)" for f
    by (simp add: initial_state_def)
  show ?thesis
    using assms(2)
    by (auto simp: initializeDriverAPI_def call_wrapper_def w lazilyLoadAndInvoke_def
        load_entry_point_def lock_guard_def bind_def try_catch_def emit_def split: prod.splits)
qed

theorem initializeDriverAPI_self_deadlock_witness:
  "initializeDriverAPI stub (run stub [] (initial_state (CUDA_VERSION stub))) =
     (Hangs, emit Lock ((run stub [] (initial_state (CUDA_VERSION stub)))\<lparr>driver_api_mutex := True\<rparr>)) \<and>
   fst (initializeDriverAPI (stub\<lparr>native := \<lambda>p args. (100, None)\<rparr>)
     (run (stub\<lparr>native := \<lambda>p args. (100, None)\<rparr>) [Invoke ''cuInit'' [0]]
       (initial_state (CUDA_VERSION (stub\<lparr>native := \<lambda>p args. (100, None)\<rparr>))))) = Hangs"
proof -
  let ?rt = "stub\<lparr>native := \<lambda>p args. (100, None)\<rparr>"
  let ?st = "run ?rt [Invoke ''cuInit'' [0]] (initial_state (CUDA_VERSION ?rt))"
  have first: "\<not> driver_api_mutex (run stub [] (initial_state (CUDA_VERSION stub)))"
    "entry_point (run stub [] (initial_state (CUDA_VERSION stub))) ''cuInit'' = None"
    by (simp_all add: initial_state_def)
  have second: "\<not> driver_api_mutex ?st" "entry_point ?st ''cuInit'' = Some 7"
    "fst (native ?rt 7 [0]) \<noteq> CUDA_SUCCESS" "entry_point ?st ''cuGetErrorString'' = None"
    by (simp_all add: model_defs)
  from initializeDriverAPI_self_deadlock [OF refl first(1)]
    initializeDriverAPI_self_deadlock [OF refl second(1)] first(2) second(2-4)
  show ?thesis by simp
qed

end
